theory Spec2Isabelle
  imports Complex_Main "HOL-Library.Multiset" "HOL-Library.Log_Nat"
begin

section \<open>Grid splitter: data model\<close>

text \<open>
  A shallow embedding of the grid splitter utility (detecting and splitting contact
  sheet grids). Conventions of the embedding:
  \<^item> image dimensions, loop counters and row/column counts are natural numbers;
  \<^item> every other JavaScript number is a real number, and arithmetic on it is exact
    except where the result of the program depends on the rounding of a double:
    \<open>to_double\<close> rounds a real to the nearest double, \<open>createGridForDimensions_double\<close> is
    the regular partition with its quotients and products rounded that way, and
    \<open>math_exp\<close> underflows to 0 as \<open>Math.exp\<close> does;
  \<^item> record fields carry a prefix, since \<open>width\<close>, \<open>rows\<close>, ... name fields of several
    interfaces of the source.
\<close>

record GridCell =
  cell_x :: int
  cell_y :: int
  cell_width :: int
  cell_height :: int

record GridDetectionResult =
  grid_rows :: nat
  grid_cols :: nat
  grid_cells :: "GridCell list"
  grid_confidence :: real

record GridCandidate =
  cand_rows :: nat
  cand_cols :: nat
  cand_cellWidth :: real
  cand_cellHeight :: real
  cand_cellAspectRatio :: real
  cand_score :: real

text \<open>\<open>Math.round\<close>: the nearest integer, a tie going up.\<close>

definition js_round :: "real \<Rightarrow> int" where
  "js_round v = \<lfloor>v + 1 / 2\<rfloor>"

section \<open>Double-precision rounding\<close>

text \<open>
  The double nearest to a real number: 53 significant bits, ties to the even
  significand, subnormal spacing below \<open>2^-1022\<close>. \<open>binade v\<close> is the exponent \<open>e\<close> with
  \<open>2^e \<le> v < 2^(e+1)\<close> of a positive \<open>v\<close>, counted through the bit length of the integer
  part of \<open>v\<close> or of \<open>1 / v\<close>. Overflow to \<open>Infinity\<close> (from \<open>2^1024\<close> on) is left out.
\<close>

definition round_half_even :: "real \<Rightarrow> int" where
  "round_half_even v =
     (let f = \<lfloor>v\<rfloor>; r = v - of_int f
      in if r < 1 / 2 then f else if 1 / 2 < r then f + 1 else if even f then f else f + 1)"

definition binade :: "real \<Rightarrow> int" where
  "binade v =
     (if 1 \<le> v then int (floorlog 2 (nat \<lfloor>v\<rfloor>)) - 1
      else - int (floorlog 2 (nat (\<lceil>1 / v\<rceil> - 1))))"

definition to_double :: "real \<Rightarrow> real" where
  "to_double v =
     (if v = 0 then 0
      else let e = max (binade \<bar>v\<bar>) (- 1022); ulp = 2 powi (e - 52)
           in of_int (round_half_even (v / ulp)) * ulp)"

section \<open>Regular partition\<close>

text \<open>
  \<open>createGridForDimensions\<close>: two nested counting loops that push one cell per
  (row, col) onto the array \<open>cells\<close>.
\<close>

definition regularCell :: "real \<Rightarrow> real \<Rightarrow> nat \<Rightarrow> nat \<Rightarrow> GridCell" where
  "regularCell cellWidth cellHeight row col =
     \<lparr>cell_x = js_round (real col * cellWidth),
      cell_y = js_round (real row * cellHeight),
      cell_width = js_round cellWidth,
      cell_height = js_round cellHeight\<rparr>"

definition createGridForDimensions :: "nat \<Rightarrow> nat \<Rightarrow> nat \<Rightarrow> nat \<Rightarrow> GridDetectionResult" where
  "createGridForDimensions w h rows cols =
     (let cellWidth = real w / real cols;
          cellHeight = real h / real rows;
          cells = fold (\<lambda>row acc.
                    fold (\<lambda>col acc'. acc' @ [regularCell cellWidth cellHeight row col])
                      [0..<cols] acc)
                    [0..<rows] []
      in \<lparr>grid_rows = rows, grid_cols = cols, grid_cells = cells, grid_confidence = 1\<rparr>)"

text \<open>
  The same function as the program runs it. \<open>width / cols\<close> and \<open>height / rows\<close> are
  double quotients, \<open>col * cellWidth\<close> and \<open>row * cellHeight\<close> double products, and
  \<open>Math.round\<close> is exact on the double it is given. \<open>createGridForDimensions\<close> above reads
  the same loops in exact arithmetic; the cells of the two differ only where a product
  falls on a tie \<open>k + 1/2\<close>.
\<close>

definition regularCell_double :: "real \<Rightarrow> real \<Rightarrow> nat \<Rightarrow> nat \<Rightarrow> GridCell" where
  "regularCell_double cellWidth cellHeight row col =
     \<lparr>cell_x = js_round (to_double (real col * cellWidth)),
      cell_y = js_round (to_double (real row * cellHeight)),
      cell_width = js_round cellWidth,
      cell_height = js_round cellHeight\<rparr>"

definition createGridForDimensions_double ::
  "nat \<Rightarrow> nat \<Rightarrow> nat \<Rightarrow> nat \<Rightarrow> GridDetectionResult" where
  "createGridForDimensions_double w h rows cols =
     (let cellWidth = to_double (real w / real cols);
          cellHeight = to_double (real h / real rows);
          cells = fold (\<lambda>row acc.
                    fold (\<lambda>col acc'. acc' @ [regularCell_double cellWidth cellHeight row col])
                      [0..<cols] acc)
                    [0..<rows] []
      in \<lparr>grid_rows = rows, grid_cols = cols, grid_cells = cells, grid_confidence = 1\<rparr>)"

section \<open>Aspect scorer and candidate generator\<close>

text \<open>The constant table of the source, in its order.\<close>

definition COMMON_ASPECT_RATIOS :: "real list" where
  "COMMON_ASPECT_RATIOS =
     [16 / 9, 4 / 3, 3 / 2, 185 / 100, 239 / 100, 1, 9 / 16, 3 / 4, 2 / 3]"

text \<open>
  \<open>Math.exp\<close> in the aspect scorer, whose range depends on it. A double cannot be
  arbitrarily small: once \<open>e^x\<close> is at most \<open>2^-1075\<close>, half the least positive double,
  the nearest double is 0 and \<open>Math.exp\<close> returns exactly 0 (for \<open>x\<close> below about
  -745.13). Above that the result is taken as \<open>e^x\<close>.
\<close>

definition math_exp :: "real \<Rightarrow> real" where
  "math_exp v = (if exp v \<le> 1 / 2 ^ 1075 then 0 else exp v)"

text \<open>
  \<open>aspectRatioScore\<close>. The running minimum \<open>bestMatch\<close> starts at \<open>Infinity\<close>, which is
  \<open>None\<close> here: \<open>Math.min(Infinity, d) = d\<close> and \<open>Math.exp(-Infinity * 3) = 0\<close>.
\<close>

definition aspectDistance :: "real \<Rightarrow> real \<Rightarrow> real" where
  "aspectDistance aspectRatio commonAR =
     (let ratio = (if aspectRatio > commonAR then aspectRatio / commonAR
                   else commonAR / aspectRatio)
      in ratio - 1)"

definition aspectRatioScore :: "real \<Rightarrow> real" where
  "aspectRatioScore aspectRatio =
     (let bestMatch = fold (\<lambda>commonAR bestMatch.
                         let distance = aspectDistance aspectRatio commonAR
                         in (case bestMatch of None \<Rightarrow> Some distance
                             | Some b \<Rightarrow> Some (min b distance)))
                        COMMON_ASPECT_RATIOS None
      in (case bestMatch of None \<Rightarrow> 0 | Some b \<Rightarrow> math_exp (- b * 3)))"

text \<open>The body of the inner loop of \<open>getGridCandidates\<close>, after the \<open>continue\<close>.\<close>

definition gridCandidate :: "nat \<Rightarrow> nat \<Rightarrow> nat \<Rightarrow> nat \<Rightarrow> GridCandidate" where
  "gridCandidate w h rows cols =
     (let imageAspectRatio = real w / real h;
          cellWidth = real w / real cols;
          cellHeight = real h / real rows;
          cellAspectRatio = cellWidth / cellHeight;
          cellARScore = aspectRatioScore cellAspectRatio;
          gridAspectRatio = real cols / real rows;
          layoutRatio = (if imageAspectRatio > gridAspectRatio
                         then imageAspectRatio / gridAspectRatio
                         else gridAspectRatio / imageAspectRatio);
          layoutScore = exp (- (layoutRatio - 1) * 2);
          cellCount = rows * cols;
          cellCountScore = (if cellCount \<le> 6 then 1
                            else exp (- (real cellCount - 6) * (15 / 100)));
          gridSymmetry = 1 - \<bar>real rows - real cols\<bar> / real (max rows cols);
          score = cellARScore * (55 / 100) + layoutScore * (25 / 100)
                  + cellCountScore * (10 / 100) + gridSymmetry * (10 / 100)
      in \<lparr>cand_rows = rows, cand_cols = cols, cand_cellWidth = cellWidth,
          cand_cellHeight = cellHeight, cand_cellAspectRatio = cellAspectRatio,
          cand_score = score\<rparr>)"

text \<open>
  \<open>candidates.sort((a, b) => b.score - a.score)\<close> is a stable sort that puts higher
  scores first: \<open>sort_key\<close> on the negated score.
\<close>

definition getGridCandidates :: "nat \<Rightarrow> nat \<Rightarrow> GridCandidate list" where
  "getGridCandidates w h =
     (let candidates = fold (\<lambda>rows acc.
                          fold (\<lambda>cols acc'.
                                  if rows = 1 \<and> cols = 1 then acc'
                                  else acc' @ [gridCandidate w h rows cols])
                            [1..<7] acc)
                         [1..<7] []
      in sort_key (\<lambda>c. - cand_score c) candidates)"

section \<open>Edge profiles\<close>

text \<open>
  The decoded image: \<open>data\<close> holds four bytes per pixel, row by row. Reads of \<open>data\<close> and
  of the profiles are within range for a buffer of \<open>4 * width * height\<close> bytes and
  profiles as long as the axis, which is what the canvas hands out.
\<close>

record ImageData =
  img_width :: nat
  img_height :: nat
  img_data :: "nat list"

definition pixelGradient :: "nat list \<Rightarrow> nat \<Rightarrow> nat \<Rightarrow> real" where
  "pixelGradient data idxA idxB =
     (let gradR = \<bar>real (data ! idxB) - real (data ! idxA)\<bar>;
          gradG = \<bar>real (data ! (idxB + 1)) - real (data ! (idxA + 1))\<bar>;
          gradB = \<bar>real (data ! (idxB + 2)) - real (data ! (idxA + 2))\<bar>
      in (gradR + gradG + gradB) / 3)"

definition calculateVerticalEdgeProfile :: "nat list \<Rightarrow> nat \<Rightarrow> nat \<Rightarrow> real list" where
  "calculateVerticalEdgeProfile data w h =
     fold (\<lambda>x profile.
             let totalGradient = fold (\<lambda>y t.
                   let idxLeft = (y * w + (x - 1)) * 4;
                       idxRight = (y * w + (x + 1)) * 4
                   in t + pixelGradient data idxLeft idxRight) [0..<h] 0
             in profile[x := totalGradient / real h])
       [1..<w - 1] (replicate w 0)"

definition calculateHorizontalEdgeProfile :: "nat list \<Rightarrow> nat \<Rightarrow> nat \<Rightarrow> real list" where
  "calculateHorizontalEdgeProfile data w h =
     fold (\<lambda>y profile.
             let totalGradient = fold (\<lambda>x t.
                   let idxUp = ((y - 1) * w + x) * 4;
                       idxDown = ((y + 1) * w + x) * 4
                   in t + pixelGradient data idxUp idxDown) [0..<w] 0
             in profile[y := totalGradient / real w])
       [1..<h - 1] (replicate h 0)"

text \<open>
  \<open>scoreGridByEdges\<close>. \<open>divisionRatio\<close> is the body of either loop over the internal
  division points: the strongest edge within the search window around the expected
  position, relative to the baseline and capped at 3.
\<close>

definition profileBaseline :: "real list \<Rightarrow> real" where
  "profileBaseline profile =
     fold (\<lambda>i s. s + profile ! i) [0..<length profile] 0 / real (length profile)"

definition divisionRatio :: "real list \<Rightarrow> real \<Rightarrow> nat \<Rightarrow> int \<Rightarrow> real \<Rightarrow> nat \<Rightarrow> real" where
  "divisionRatio profile baseline len searchWindow cellSize i =
     (let expectedPos = js_round (cellSize * real i);
          maxStrength = fold (\<lambda>offset m.
                let pos = expectedPos + offset
                in if pos > 0 \<and> pos < int len - 1 then max m (profile ! nat pos) else m)
              [- searchWindow..searchWindow] 0;
          ratio = (if baseline > 0 then maxStrength / baseline else 1)
      in min ratio 3)"

definition scoreGridByEdges ::
  "nat \<Rightarrow> nat \<Rightarrow> nat \<Rightarrow> nat \<Rightarrow> real list \<Rightarrow> real list \<Rightarrow> real" where
  "scoreGridByEdges rows cols w h verticalProfile horizontalProfile =
     (let verticalBaseline = profileBaseline verticalProfile;
          horizontalBaseline = profileBaseline horizontalProfile;
          searchWindow = max 3 \<lfloor>min (real w / real cols) (real h / real rows) * (3 / 100)\<rfloor>;
          (totalRatio, divisions) =
             (if cols > 1
              then fold (\<lambda>i (t, d).
                     (t + divisionRatio verticalProfile verticalBaseline w searchWindow
                            (real w / real cols) i, d + 1))
                     [1..<cols] (0, 0 :: nat)
              else (0, 0));
          (totalRatio, divisions) =
             (if rows > 1
              then fold (\<lambda>i (t, d).
                     (t + divisionRatio horizontalProfile horizontalBaseline h searchWindow
                            (real h / real rows) i, d + 1))
                     [1..<rows] (totalRatio, divisions)
              else (totalRatio, divisions))
      in if divisions = 0 then 0
         else (let avgRatio = totalRatio / real divisions in min ((avgRatio - 1) / 2) 1))"

section \<open>Geometric detector\<close>

text \<open>
  What the browser yields for the data URL: the image fails to load, or no 2D canvas
  context is available, or the pixels are read.
\<close>

datatype image_source = LoadFailure | NoContext | Decoded ImageData

datatype error = FailedToLoadImage | NoCanvasContext | TypeError

text \<open>
  \<open>analyzeGridFromImageData\<close>. The pair (\<open>bestCandidate\<close>, \<open>bestCombinedScore\<close>) starts as
  (\<open>candidates[0]\<close>, \<open>-Infinity\<close>), which is \<open>None\<close> here: every score exceeds
  \<open>-Infinity\<close>, so the first iteration always replaces it. It survives the loop only
  when there is no candidate; then \<open>bestCandidate\<close> is \<open>undefined\<close> and reading its \<open>rows\<close>
  throws.
\<close>

definition analyzeGridFromImageData :: "ImageData \<Rightarrow> error + GridDetectionResult" where
  "analyzeGridFromImageData imageData =
     (let w = img_width imageData; h = img_height imageData; data = img_data imageData;
          candidates = getGridCandidates w h;
          verticalEdgeStrength = calculateVerticalEdgeProfile data w h;
          horizontalEdgeStrength = calculateHorizontalEdgeProfile data w h;
          best = fold (\<lambda>candidate best.
                   let edgeScore = scoreGridByEdges (cand_rows candidate) (cand_cols candidate)
                                     w h verticalEdgeStrength horizontalEdgeStrength;
                       combinedScore = cand_score candidate * (8 / 10) + edgeScore * (2 / 10)
                   in (case best of
                         None \<Rightarrow> Some (candidate, combinedScore)
                       | Some (bestCandidate, bestCombinedScore) \<Rightarrow>
                           if combinedScore > bestCombinedScore
                           then Some (candidate, combinedScore) else best))
                 (take 8 candidates) None
      in (case best of
            None \<Rightarrow> Inl TypeError
          | Some (bestCandidate, bestCombinedScore) \<Rightarrow>
              Inr ((createGridForDimensions w h (cand_rows bestCandidate) (cand_cols bestCandidate))
                     \<lparr>grid_confidence := bestCombinedScore\<rparr>)))"

definition detectGrid :: "image_source \<Rightarrow> error + GridDetectionResult" where
  "detectGrid src =
     (case src of
        LoadFailure \<Rightarrow> Inl FailedToLoadImage
      | NoContext \<Rightarrow> Inl NoCanvasContext
      | Decoded imageData \<Rightarrow> analyzeGridFromImageData imageData)"

section \<open>Gutter detector\<close>

record Interval =
  iv_start :: nat
  iv_end :: nat
  iv_size :: nat

text \<open>
  The projection profiles: both arrays start at 0 and every pixel adds its brightness to
  its column's and its row's sum.
\<close>

definition projectionProfiles :: "ImageData \<Rightarrow> real list \<times> real list" where
  "projectionProfiles imageData =
     (let w = img_width imageData; h = img_height imageData; data = img_data imageData
      in fold (\<lambda>y acc.
           fold (\<lambda>x (colSums, rowSums).
                   let i = (y * w + x) * 4;
                       brightness = (real (data ! i) + real (data ! (i + 1))
                                      + real (data ! (i + 2))) / 3
                   in (colSums[x := colSums ! x + brightness],
                       rowSums[y := rowSums ! y + brightness]))
             [0..<w] acc)
           [0..<h] (replicate w 0, replicate h 0))"

text \<open>
  \<open>findIntervals\<close>: one scan with the state (\<open>intervals\<close>, \<open>inContent\<close>, \<open>start\<close>), the
  closing push, then the noise filter. An interval is pushed only while \<open>inContent\<close>, when
  \<open>start < i\<close>, so the subtractions stay within the naturals.
\<close>

definition findIntervals_step ::
  "(nat \<Rightarrow> bool) \<Rightarrow> nat \<Rightarrow> Interval list \<times> bool \<times> nat \<Rightarrow> Interval list \<times> bool \<times> nat" where
  "findIntervals_step isGapFn i st =
     (case st of (intervals, inContent, start) \<Rightarrow>
        if \<not> isGapFn i
        then (if \<not> inContent then (intervals, True, i) else (intervals, inContent, start))
        else (if inContent
              then (intervals @ [\<lparr>iv_start = start, iv_end = i - 1, iv_size = i - start\<rparr>],
                    False, start)
              else (intervals, inContent, start)))"

definition findIntervals_scan :: "nat \<Rightarrow> (nat \<Rightarrow> bool) \<Rightarrow> Interval list" where
  "findIntervals_scan len isGapFn =
     (case fold (findIntervals_step isGapFn) [0..<len] ([], False, 0) of
        (intervals, inContent, start) \<Rightarrow>
          if inContent
          then intervals @ [\<lparr>iv_start = start, iv_end = len - 1, iv_size = len - start\<rparr>]
          else intervals)"

definition findIntervals :: "nat \<Rightarrow> (nat \<Rightarrow> bool) \<Rightarrow> Interval list" where
  "findIntervals len isGapFn =
     filter (\<lambda>iv. real (iv_size iv) > real len * (5 / 100)) (findIntervals_scan len isGapFn)"

definition isColumnGap :: "real list \<Rightarrow> nat \<Rightarrow> nat \<Rightarrow> bool" where
  "isColumnGap colSums h x \<longleftrightarrow> colSums ! x / real h < 30"

definition isRowGap :: "real list \<Rightarrow> nat \<Rightarrow> nat \<Rightarrow> bool" where
  "isRowGap rowSums w y \<longleftrightarrow> rowSums ! y / real w < 30"

definition gutterCell :: "Interval \<Rightarrow> Interval \<Rightarrow> GridCell" where
  "gutterCell rowIv colIv =
     \<lparr>cell_x = int (iv_start colIv), cell_y = int (iv_start rowIv),
      cell_width = int (iv_size colIv), cell_height = int (iv_size rowIv)\<rparr>"

definition cellArea :: "GridCell \<Rightarrow> int" where
  "cellArea c = cell_width c * cell_height c"

text \<open>Steps 3 and 4 of the detector, from the intervals of the two axes.\<close>

definition gutterGrid :: "Interval list \<Rightarrow> Interval list \<Rightarrow> GridDetectionResult option" where
  "gutterGrid rowIntervals colIntervals =
     (if length rowIntervals = 0 \<or> length colIntervals = 0 then None
      else
        let cells = fold (\<lambda>rowIv acc.
                      fold (\<lambda>colIv acc'. acc' @ [gutterCell rowIv colIv]) colIntervals acc)
                      rowIntervals [];
            areas = sort (map cellArea cells);
            medianArea = areas ! (length areas div 2);
            validCells = filter (\<lambda>c. real_of_int (cellArea c) > real_of_int medianArea * (5 / 10))
                           cells
        in Some \<lparr>grid_rows = length rowIntervals, grid_cols = length colIntervals,
                 grid_cells = validCells, grid_confidence = 95 / 100\<rparr>)"

definition colIntervalsOf :: "ImageData \<Rightarrow> Interval list" where
  "colIntervalsOf imageData =
     findIntervals (img_width imageData)
       (isColumnGap (fst (projectionProfiles imageData)) (img_height imageData))"

definition rowIntervalsOf :: "ImageData \<Rightarrow> Interval list" where
  "rowIntervalsOf imageData =
     findIntervals (img_height imageData)
       (isRowGap (snd (projectionProfiles imageData)) (img_width imageData))"

definition detectGridWithGutters :: "image_source \<Rightarrow> GridDetectionResult option" where
  "detectGridWithGutters src =
     (case src of
        LoadFailure \<Rightarrow> None
      | NoContext \<Rightarrow> None
      | Decoded imageData \<Rightarrow>
          gutterGrid (rowIntervalsOf imageData) (colIntervalsOf imageData))"

section \<open>Orchestrator\<close>

text \<open>
  \<open>splitImage\<close>. Drawing a cell of the image on a canvas of the cell's size and encoding
  it is the browser's work: the parameter \<open>crop\<close>. A canvas is made per cell, so a
  missing context is noticed at the first cell only.
\<close>

definition splitImage ::
  "(ImageData \<Rightarrow> GridCell \<Rightarrow> 'png) \<Rightarrow> image_source \<Rightarrow> GridDetectionResult \<Rightarrow> error + 'png list" where
  "splitImage crop src grid =
     (case src of
        LoadFailure \<Rightarrow> Inl FailedToLoadImage
      | NoContext \<Rightarrow> (if grid_cells grid = [] then Inr [] else Inl NoCanvasContext)
      | Decoded imageData \<Rightarrow>
          Inr (fold (\<lambda>cell results. results @ [crop imageData cell]) (grid_cells grid) []))"

definition detectAndSplitGrid ::
  "(ImageData \<Rightarrow> GridCell \<Rightarrow> 'png) \<Rightarrow> image_source
     \<Rightarrow> error + (GridDetectionResult \<times> 'png list)" where
  "detectAndSplitGrid crop src =
     (let grid = detectGridWithGutters src;
          grid = (case grid of
                    None \<Rightarrow> detectGrid src
                  | Some g \<Rightarrow> if length (grid_cells g) < 2 then detectGrid src else Inr g)
      in (case grid of
            Inl e \<Rightarrow> Inl e
          | Inr g \<Rightarrow>
              (case splitImage crop src g of
                 Inl e \<Rightarrow> Inl e
               | Inr images \<Rightarrow> Inr (g, images))))"

section \<open>Notions of the specification\<close>

text \<open>
  A content interval in the words of the specification: a maximal run \<open>s..e\<close> of
  non-gap positions of an axis of length \<open>len\<close>, as the interval record the detector
  would hold for it.
\<close>

definition contentRun :: "(nat \<Rightarrow> bool) \<Rightarrow> nat \<Rightarrow> nat \<Rightarrow> nat \<Rightarrow> bool" where
  "contentRun isGap len s e \<longleftrightarrow>
     s \<le> e \<and> e < len \<and> (\<forall>i\<in>{s..e}. \<not> isGap i)
     \<and> (s = 0 \<or> isGap (s - 1)) \<and> (e + 1 = len \<or> isGap (e + 1))"

definition runInterval :: "nat \<Rightarrow> nat \<Rightarrow> Interval" where
  "runInterval s e = \<lparr>iv_start = s, iv_end = e, iv_size = e - s + 1\<rparr>"

text \<open>
  For the proofs about the scan: the runs already closed by a gap before position \<open>n\<close>,
  and the invariant of the scanning loop after \<open>n\<close> positions.
\<close>

definition closedRun :: "(nat \<Rightarrow> bool) \<Rightarrow> nat \<Rightarrow> nat \<Rightarrow> nat \<Rightarrow> bool" where
  "closedRun isGap n s e \<longleftrightarrow>
     s \<le> e \<and> e + 1 < n \<and> (\<forall>i\<in>{s..e}. \<not> isGap i)
     \<and> (s = 0 \<or> isGap (s - 1)) \<and> isGap (e + 1)"

definition scanInv :: "(nat \<Rightarrow> bool) \<Rightarrow> nat \<Rightarrow> Interval list \<times> bool \<times> nat \<Rightarrow> bool" where
  "scanInv isGap n st \<longleftrightarrow>
     (case st of (intervals, inContent, start) \<Rightarrow>
        set intervals = {runInterval s e | s e. closedRun isGap n s e}
        \<and> (inContent \<longleftrightarrow> 0 < n \<and> \<not> isGap (n - 1))
        \<and> (inContent \<longrightarrow> start < n \<and> (\<forall>i. start \<le> i \<and> i < n \<longrightarrow> \<not> isGap i)
                          \<and> (start = 0 \<or> isGap (start - 1))))"

text \<open>
  The brightness of the pixel in column \<open>x\<close> of row \<open>y\<close>, the mean of its three colour
  bytes: what the projection profiles sum up.
\<close>

definition brightness :: "ImageData \<Rightarrow> nat \<Rightarrow> nat \<Rightarrow> real" where
  "brightness imageData x y =
     (let i = (y * img_width imageData + x) * 4; data = img_data imageData
      in (real (data ! i) + real (data ! (i + 1)) + real (data ! (i + 2))) / 3)"

text \<open>
  The raw cells in the words of the specification: the row-major cross product of the
  row intervals by the column intervals; and the median area, the element at index
  \<open>floor(n / 2)\<close> of the ascending list of the \<open>n\<close> areas.
\<close>

definition crossProduct :: "Interval list \<Rightarrow> Interval list \<Rightarrow> GridCell list" where
  "crossProduct rowIvs colIvs =
     concat (map (\<lambda>rowIv. map (\<lambda>colIv.
        \<lparr>cell_x = int (iv_start colIv), cell_y = int (iv_start rowIv),
         cell_width = int (iv_size colIv), cell_height = int (iv_size rowIv)\<rparr>) colIvs) rowIvs)"

definition medianArea :: "GridCell list \<Rightarrow> int" where
  "medianArea cs = sort (map (\<lambda>c. cell_width c * cell_height c) cs) ! (length cs div 2)"

text \<open>
  A 3 by 2 image for the examples: a bright column, a black column, a grey column.
\<close>

definition gutterExample :: ImageData where
  "gutterExample = \<lparr>img_width = 3, img_height = 2,
     img_data = [200, 200, 200, 255,  0, 0, 0, 255,  90, 90, 90, 255,
                 200, 200, 200, 255,  0, 0, 0, 255,  90, 90, 90, 255]\<rparr>"

text \<open>
  The canonical ratios as the specification describes them: the six landscape ratios and
  the reciprocal of each.
\<close>

definition canonicalWithReciprocals :: "real list" where
  "canonicalWithReciprocals =
     [16 / 9, 4 / 3, 3 / 2, 185 / 100, 239 / 100, 1]
     @ map (\<lambda>c. 1 / c) [16 / 9, 4 / 3, 3 / 2, 185 / 100, 239 / 100, 1]"

text \<open>The (rows, cols) pairs of the candidate generator, in generation order.\<close>

definition gridPairs :: "(nat \<times> nat) list" where
  "gridPairs = concat (map (\<lambda>rows. map (Pair rows) (filter (\<lambda>cols. \<not> (rows = 1 \<and> cols = 1)) [1..<7]))
                 [1..<7])"

text \<open>
  A 10 by 5 image for the edge score: the first column black, every other pixel grey.
\<close>

definition edgeExample :: ImageData where
  "edgeExample = \<lparr>img_width = 10, img_height = 5,
     img_data = concat (replicate 5 ([0, 0, 0, 255] @ concat (replicate 9 [27, 27, 27, 255])))\<rparr>"

section \<open>Loops that append\<close>

lemma fold_push: "fold (\<lambda>a acc. acc @ [f a]) xs acc0 = acc0 @ map f xs"
  by (induction xs arbitrary: acc0) simp_all

lemma fold_push_nested:
  "fold (\<lambda>a acc. fold (\<lambda>b acc'. acc' @ [f a b]) ys acc) xs acc0
     = acc0 @ concat (map (\<lambda>a. map (f a) ys) xs)"
  by (induction xs arbitrary: acc0) (simp_all add: fold_push)

lemma nth_concat_uniform:
  assumes "i < n" and "j < m"
  shows "concat (map (\<lambda>a. map (f a) [0..<m]) [0..<n]) ! (i * m + j) = f i j"
  using assms
proof (induction n)
  case 0
  then show ?case by simp
next
  case (Suc n)
  have len: "length (concat (map (\<lambda>a. map (f a) [0..<m]) [0..<n])) = n * m"
    by (induction n) simp_all
  show ?case
  proof (cases "i < n")
    case True
    then have "i * m + j < n * m"
    proof -
      have "i * m + j < i * m + m" using Suc.prems(2) by simp
      also have "\<dots> = Suc i * m" by simp
      also have "\<dots> \<le> n * m" using True by (intro mult_le_mono1) simp
      finally show ?thesis .
    qed
    with True Suc show ?thesis by (simp add: nth_append len)
  next
    case False
    with Suc.prems have "i = n" by simp
    then show ?thesis using Suc.prems(2) by (simp add: nth_append len)
  qed
qed

lemma length_concat_uniform:
  "length (concat (map (\<lambda>a. map (f a) [0..<m]) [0..<n])) = n * m"
  by (induction n) simp_all

lemma createGrid_cells:
  "grid_cells (createGridForDimensions w h rows cols)
     = concat (map (\<lambda>row. map (regularCell (real w / real cols) (real h / real rows) row) [0..<cols])
         [0..<rows])"
  by (simp add: createGridForDimensions_def Let_def fold_push_nested)

section \<open>Rounding along one axis\<close>

lemma js_round_upper: "of_int (js_round v) \<le> v + 1 / 2"
  by (simp add: js_round_def)

lemma js_round_lower: "v - 1 / 2 < of_int (js_round v)"
  unfolding js_round_def by linarith

lemma js_round_nonneg: "0 \<le> v \<Longrightarrow> 0 \<le> js_round v"
  unfolding js_round_def by simp

lemma js_round_zero: "js_round 0 = 0"
  by (simp add: js_round_def)

lemma js_round_pos: "1 / 2 \<le> v \<Longrightarrow> 0 < js_round v"
  unfolding js_round_def by linarith

lemma js_round_mono: "u \<le> v \<Longrightarrow> js_round u \<le> js_round v"
  unfolding js_round_def by (simp add: floor_mono)

lemma js_round_add_le: "js_round (a + b) \<le> js_round a + js_round b + 1"
proof -
  have "real_of_int (js_round (a + b)) < real_of_int (js_round a + js_round b + 1) + 1"
    using js_round_upper [of "a + b"] js_round_lower [of a] js_round_lower [of b] by simp
  then show ?thesis by linarith
qed

lemma js_round_sum_ge: "a + b = real n \<Longrightarrow> int n \<le> js_round a + js_round b"
proof -
  assume "a + b = real n"
  then have "real_of_int (int n) - 1 < real_of_int (js_round a + js_round b)"
    using js_round_lower [of a] js_round_lower [of b] by simp
  then show ?thesis by linarith
qed

lemma js_round_sum_le: "a + b \<le> real n \<Longrightarrow> js_round a + js_round b \<le> int n + 1"
proof -
  assume "a + b \<le> real n"
  then have "real_of_int (js_round a + js_round b) \<le> real_of_int (int n + 1)"
    using js_round_upper [of a] js_round_upper [of b] by simp
  then show ?thesis by linarith
qed

text \<open>One axis: the starts round (k * len / n) and the common extent round (len / n).\<close>

lemma axis_step:
  "js_round (real (Suc k) * cw) \<le> js_round (real k * cw) + js_round cw + 1"
proof -
  have "real (Suc k) * cw = real k * cw + cw" by (simp add: algebra_simps)
  then show ?thesis using js_round_add_le [of "real k * cw" cw] by simp
qed

lemma axis_last:
  assumes "0 < n"
  shows "int len \<le> js_round (real (n - 1) * (real len / real n)) + js_round (real len / real n)"
proof -
  have "real (n - 1) * (real len / real n) + real len / real n = real len"
    using assms by (simp add: field_simps of_nat_diff)
  then show ?thesis by (rule js_round_sum_ge)
qed

lemma axis_end_le:
  assumes "k < n"
  shows "js_round (real k * (real len / real n)) + js_round (real len / real n) \<le> int len + 1"
proof -
  have "real k * (real len / real n) + real len / real n = real (Suc k) * (real len / real n)"
    by (simp add: add_divide_distrib algebra_simps)
  also have "\<dots> \<le> real n * (real len / real n)"
    using assms by (intro mult_right_mono) simp_all
  also have "\<dots> = real len" using assms by simp
  finally show ?thesis by (rule js_round_sum_le)
qed

lemma axis_cover:
  assumes "0 < n" and "p < len"
  shows "\<exists>k<n. js_round (real k * (real len / real n)) \<le> int p
            \<and> int p \<le> js_round (real k * (real len / real n)) + js_round (real len / real n)"
proof -
  define st where "st k = js_round (real k * (real len / real n))" for k
  define Q where "Q k \<longleftrightarrow> k < n \<and> st k \<le> int p" for k
  have Q0: "Q 0" using assms by (simp add: Q_def st_def js_round_zero)
  have bound: "\<And>k. Q k \<Longrightarrow> k \<le> n" by (simp add: Q_def)
  define g where "g = (GREATEST k. Q k)"
  have Qg: "Q g" unfolding g_def using Q0 bound by (rule GreatestI_nat)
  have gmax: "k \<le> g" if "Q k" for k
    unfolding g_def using that bound by (rule Greatest_le_nat)
  have "int p \<le> st g + js_round (real len / real n)"
  proof (cases "Suc g < n")
    case True
    then have "\<not> Q (Suc g)" using gmax [of "Suc g"] by auto
    with True have "int p < st (Suc g)" by (simp add: Q_def)
    moreover have "st (Suc g) \<le> st g + js_round (real len / real n) + 1"
      unfolding st_def by (rule axis_step)
    ultimately show ?thesis by simp
  next
    case False
    with Qg have "g = n - 1" unfolding Q_def by linarith
    then have "int len \<le> st g + js_round (real len / real n)"
      unfolding st_def using axis_last [OF assms(1), of len] by simp
    with assms(2) show ?thesis by simp
  qed
  with Qg show ?thesis unfolding Q_def st_def by blast
qed

section \<open>Rounding to the nearest double\<close>

lemma pow2_le_real: "2 ^ k \<le> (n::nat) \<Longrightarrow> (2::real) ^ k \<le> real n"
  by (metis of_nat_le_iff of_nat_numeral of_nat_power)

lemma pow2_gt_real: "(n::nat) < 2 ^ k \<Longrightarrow> real n + 1 \<le> (2::real) ^ k"
proof -
  assume "n < 2 ^ k"
  then have "Suc n \<le> 2 ^ k" by simp
  then have "real (Suc n) \<le> real (2 ^ k)" by (simp only: of_nat_le_iff)
  then show ?thesis by simp
qed

lemma binade_bounds:
  assumes "0 < v"
  shows "2 powi binade v \<le> v \<and> v < 2 powi (binade v + 1)"
proof (cases "1 \<le> v")
  case True
  define n where "n = nat \<lfloor>v\<rfloor>"
  have "0 < \<lfloor>v\<rfloor>" using True by simp
  then have n: "0 < n" "real n \<le> v" "v < real n + 1"
    unfolding n_def by (simp, simp, linarith)
  have b: "2 ^ (floorlog 2 n - 1) \<le> n" "n < 2 ^ floorlog 2 n"
    using floorlog_bounds [of n 2] n(1) by simp_all
  have k: "0 < floorlog 2 n" using n(1) by (simp add: floorlog_def)
  have e: "binade v = int (floorlog 2 n - 1)" "binade v + 1 = int (floorlog 2 n)"
    using True k by (simp_all add: binade_def n_def of_nat_diff)
  have "2 powi binade v \<le> real n"
    unfolding e(1) power_int_of_nat using b(1) by (rule pow2_le_real)
  moreover have "real n + 1 \<le> 2 powi (binade v + 1)"
    unfolding e(2) power_int_of_nat using b(2) by (rule pow2_gt_real)
  ultimately show ?thesis using n(2,3) by linarith
next
  case False
  define y where "y = 1 / v"
  define m where "m = nat (\<lceil>y\<rceil> - 1)"
  have y: "1 < y" using False assms by (simp add: y_def)
  have c: "1 < \<lceil>y\<rceil>" using y by (simp add: less_ceiling_iff)
  then have rm: "real m = of_int \<lceil>y\<rceil> - 1" by (simp add: m_def)
  have m: "0 < m" "real m < y" "y \<le> real m + 1"
  proof -
    show "0 < m" using c by (simp add: m_def)
    show "real m < y" unfolding rm by linarith
    show "y \<le> real m + 1" unfolding rm by linarith
  qed
  have b: "2 ^ (floorlog 2 m - 1) \<le> m" "m < 2 ^ floorlog 2 m"
    using floorlog_bounds [of m 2] m(1) by simp_all
  have k: "0 < floorlog 2 m" using m(1) by (simp add: floorlog_def)
  have e: "binade v = - int (floorlog 2 m)" "binade v + 1 = - int (floorlog 2 m - 1)"
    using False k by (simp_all add: binade_def m_def y_def of_nat_diff)
  have lo: "(2::real) ^ (floorlog 2 m - 1) < y"
    using pow2_le_real [OF b(1)] m(2) by linarith
  have hi: "y \<le> (2::real) ^ floorlog 2 m"
    using pow2_gt_real [OF b(2)] m(3) by linarith
  have v: "v = 1 / y" by (simp add: y_def)
  have "2 powi binade v = 1 / (2::real) ^ floorlog 2 m"
    unfolding e(1) power_int_minus power_int_of_nat by (simp add: field_simps)
  also have "\<dots> \<le> v" unfolding v using hi y by (intro frac_le) simp_all
  finally have 1: "2 powi binade v \<le> v" .
  have "v < 1 / (2::real) ^ (floorlog 2 m - 1)"
    unfolding v using lo by (intro frac_less2) simp_all
  also have "\<dots> = 2 powi (binade v + 1)"
    unfolding e(2) power_int_minus power_int_of_nat by (simp add: field_simps)
  finally show ?thesis using 1 by simp
qed


lemma round_half_even_error: "\<bar>of_int (round_half_even v) - v\<bar> \<le> 1 / 2"
proof -
  have "of_int \<lfloor>v\<rfloor> \<le> v" "v < of_int \<lfloor>v\<rfloor> + 1" by linarith+
  then show ?thesis
    by (auto simp: round_half_even_def Let_def)
qed

lemma round_half_even_of_int: "round_half_even (of_int n) = n"
  by (simp add: round_half_even_def)

lemma round_half_even_nonneg: "0 \<le> v \<Longrightarrow> 0 \<le> round_half_even v"
  by (auto simp: round_half_even_def Let_def)

lemma to_double_zero: "to_double 0 = 0"
  by (simp add: to_double_def)

lemma to_double_nonneg: "0 \<le> v \<Longrightarrow> 0 \<le> to_double v"
  by (auto simp: to_double_def Let_def intro!: mult_nonneg_nonneg round_half_even_nonneg
      divide_nonneg_pos)

lemma pow2_powi_mono: "a \<le> b \<Longrightarrow> (2::real) powi a \<le> 2 powi b"
  by (rule power_int_increasing) simp_all

lemma binade_ge:
  assumes "2 powi k \<le> v"
  shows "k \<le> binade v"
proof (rule ccontr)
  assume "\<not> k \<le> binade v"
  then have "binade v + 1 \<le> k" by simp
  then have "(2::real) powi (binade v + 1) \<le> 2 powi k" by (rule pow2_powi_mono)
  moreover have "0 < v" using assms zero_less_power_int [of "2::real" k] by linarith
  ultimately show False using binade_bounds [of v] assms by linarith
qed

lemma binade_less:
  assumes "0 < v" "v < 2 powi k"
  shows "binade v < k"
proof (rule ccontr)
  assume "\<not> binade v < k"
  then have "(2::real) powi k \<le> 2 powi binade v" by (intro pow2_powi_mono) simp
  then show False using binade_bounds [OF assms(1)] assms(2) by linarith
qed

lemma to_double_normal:
  assumes "1 / 2 ^ 1022 \<le> v"
  shows "to_double v = of_int (round_half_even (v / 2 powi (binade v - 52))) * 2 powi (binade v - 52)"
proof -
  have "(2::real) powi (- 1022) \<le> v"
    using assms by (simp add: power_int_minus field_simps)
  then have "- 1022 \<le> binade v" by (rule binade_ge)
  moreover have "0 < v" using assms by (smt (verit) divide_pos_pos zero_less_power)
  ultimately show ?thesis by (simp add: to_double_def Let_def max_def)
qed

lemma to_double_error:
  assumes "1 / 2 ^ 1022 \<le> v"
  shows "\<bar>to_double v - v\<bar> \<le> v / 2 ^ 53"
proof -
  define ulp :: real where "ulp = 2 powi (binade v - 52)"
  have pos: "0 < v" using assms by (smt (verit) divide_pos_pos zero_less_power)
  have ulp: "0 < ulp" by (simp add: ulp_def)
  have "to_double v - v = (of_int (round_half_even (v / ulp)) - v / ulp) * ulp"
    using ulp by (simp add: to_double_normal [OF assms] ulp_def [symmetric] field_simps)
  then have "\<bar>to_double v - v\<bar> = \<bar>of_int (round_half_even (v / ulp)) - v / ulp\<bar> * ulp"
    using ulp by (simp add: abs_mult)
  also have "\<dots> \<le> 1 / 2 * ulp"
    using round_half_even_error [of "v / ulp"] ulp by (intro mult_right_mono) simp_all
  also have "\<dots> = 2 powi binade v / 2 ^ 53"
    by (simp add: ulp_def power_int_diff)
  also have "\<dots> \<le> v / 2 ^ 53"
    using binade_bounds [OF pos] by (intro divide_right_mono) simp_all
  finally show ?thesis .
qed

lemma to_double_half_integer:
  assumes "v = of_int n / 2" "1 / 2 \<le> v" "v < 2 ^ 52"
  shows "to_double v = v"
proof -
  have pos: "0 < v" using assms(2) by simp
  have "(2::real) powi (- 1) \<le> v" using assms(2) by (simp add: power_int_minus)
  then have lo: "- 1 \<le> binade v" by (rule binade_ge)
  have "v < 2 powi 52" using assms(3) by simp
  with pos have hi: "binade v < 52" by (rule binade_less)
  define k where "k = nat (51 - binade v)"
  have k: "int k = 51 - binade v" using hi by (simp add: k_def)
  have norm: "1 / 2 ^ 1022 \<le> v"
  proof -
    have "(1::real) / 2 ^ 1022 \<le> 1 / 2 ^ 1" by (intro frac_le power_increasing) simp_all
    with assms(2) show ?thesis by simp
  qed
  have ulp: "2 powi (binade v - 52) = 1 / (2 * (2::real) ^ k)"
  proof -
    have "binade v - 52 = - int (Suc k)" using k by simp
    then show ?thesis by (simp only: power_int_minus power_int_of_nat) (simp add: field_simps)
  qed
  have "v / 2 powi (binade v - 52) = of_int (n * 2 ^ k)"
    unfolding ulp by (simp add: assms(1))
  then have "to_double v = of_int (n * 2 ^ k) * 2 powi (binade v - 52)"
    by (simp only: to_double_normal [OF norm] round_half_even_of_int)
  also have "\<dots> = v" unfolding ulp by (simp add: assms(1))
  finally show ?thesis .
qed


text \<open>Rounding to the nearest integer is stable away from the ties.\<close>

lemma js_round_stable:
  assumes gap: "\<And>m. v \<noteq> of_int m + 1 / 2 \<Longrightarrow> \<delta> \<le> \<bar>v - (of_int m + 1 / 2)\<bar>"
      and near: "\<bar>v' - v\<bar> < \<delta>" and small: "\<delta> \<le> 1 / 2"
  shows "js_round v' = js_round v \<or> (js_round v' = js_round v - 1 \<and> frac v = 1 / 2)"
proof -
  define j where "j = js_round v"
  have j: "of_int j - 1 / 2 \<le> v" "v < of_int j + 1 / 2"
    unfolding j_def js_round_def by linarith+
  show ?thesis
  proof (cases "v = of_int (j - 1) + 1 / 2")
    case True
    then have "v - 1 / 2 = of_int (j - 1)" by simp
    then have "v - 1 / 2 \<in> \<int>" by (metis Ints_of_int)
    then have "frac v = 1 / 2" using frac_unique_iff [of v "1 / 2"] by simp
    moreover have "of_int j - 1 < v'" "v' < of_int j" using True near small by auto
    then have "js_round v' = j \<or> js_round v' = j - 1" unfolding js_round_def by linarith
    ultimately show ?thesis unfolding j_def by auto
  next
    case False
    then have "\<delta> \<le> \<bar>v - (of_int (j - 1) + 1 / 2)\<bar>" by (rule gap)
    then have lo: "of_int j - 1 / 2 + \<delta> \<le> v" using j(1) by simp
    have "v \<noteq> of_int j + 1 / 2" using j(2) by simp
    then have "\<delta> \<le> \<bar>v - (of_int j + 1 / 2)\<bar>" by (rule gap)
    then have hi: "v + \<delta> \<le> of_int j + 1 / 2" using j(2) by simp
    have "of_int j - 1 / 2 < v'" "v' < of_int j + 1 / 2" using lo hi near by auto
    then have "js_round v' = j" unfolding js_round_def by linarith
    then show ?thesis by (simp add: j_def)
  qed
qed

lemma grid_gap:
  fixes k len n :: nat and m :: int
  assumes "0 < n" and "real k * (real len / real n) \<noteq> of_int m + 1 / 2"
  shows "1 / (2 * real n) \<le> \<bar>real k * (real len / real n) - (of_int m + 1 / 2)\<bar>"
proof -
  define N :: int where "N = 2 * int k * int len - (2 * m + 1) * int n"
  have eq: "real k * (real len / real n) - (of_int m + 1 / 2) = of_int N / (2 * real n)"
    using assms(1) by (simp add: N_def field_simps)
  have "N \<noteq> 0"
  proof
    assume "N = 0"
    with eq have "real k * (real len / real n) = of_int m + 1 / 2" by simp
    with assms(2) show False by simp
  qed
  then have "1 \<le> \<bar>N\<bar>" by simp
  then have "1 \<le> \<bar>real_of_int N\<bar>" by (metis of_int_1_le_iff of_int_abs)
  then have "1 / (2 * real n) \<le> \<bar>real_of_int N\<bar> / (2 * real n)"
    using assms(1) by (intro divide_right_mono) simp_all
  also have "\<dots> = \<bar>real_of_int N / (2 * real n)\<bar>" by simp
  finally show ?thesis unfolding eq .
qed

lemma double_extent:
  fixes len n :: nat
  assumes n: "0 < n" and len: "0 < len" and size: "len * n \<le> 2 ^ 50"
  shows "\<bar>to_double (real len / real n) - real len / real n\<bar> < 1 / (2 * real n)"
    and "js_round (to_double (real len / real n)) = js_round (real len / real n)"
    and "1 / 2 ^ 51 \<le> to_double (real len / real n)"
proof -
  define q where "q = real len / real n"
  have n50: "real n \<le> 2 ^ 50" and len50: "real len \<le> 2 ^ 50"
  proof -
    have "n \<le> len * n" "len \<le> len * n" using n len by simp_all
    with size have "n \<le> 2 ^ 50" "len \<le> 2 ^ 50" by linarith+
    then show "real n \<le> 2 ^ 50" "real len \<le> 2 ^ 50"
      by (metis of_nat_le_iff of_nat_numeral of_nat_power)+
  qed
  have q_lo: "1 / 2 ^ 50 \<le> q"
  proof -
    have "1 / 2 ^ 50 \<le> 1 / real n" using n n50 by (intro frac_le) simp_all
    also have "\<dots> \<le> q" unfolding q_def using n len by (intro divide_right_mono) simp_all
    finally show ?thesis .
  qed
  have norm: "1 / 2 ^ 1022 \<le> q"
  proof -
    have "(1::real) / 2 ^ 1022 \<le> 1 / 2 ^ 50" by (intro frac_le power_increasing) simp_all
    with q_lo show ?thesis by simp
  qed
  have err: "\<bar>to_double q - q\<bar> \<le> q / 2 ^ 53" using norm by (rule to_double_error)
  have "q / 2 ^ 53 = real len / 2 ^ 53 / real n" by (simp add: q_def)
  also have "\<dots> < 1 / 2 / real n"
    using n len50 by (intro divide_strict_right_mono) simp_all
  finally have small: "q / 2 ^ 53 < 1 / (2 * real n)" by simp
  with err show near: "\<bar>to_double (real len / real n) - real len / real n\<bar> < 1 / (2 * real n)"
    by (simp add: q_def)
  have "0 < q" using n len by (simp add: q_def)
  then have "q / 2 ^ 53 \<le> q / 2" by (intro divide_left_mono) simp_all
  with err have "q / 2 \<le> to_double q" by linarith
  moreover have "1 / 2 ^ 51 \<le> q / 2" using q_lo by simp
  ultimately show "1 / 2 ^ 51 \<le> to_double (real len / real n)" by (simp add: q_def)
  have gap: "1 / (2 * real n) \<le> \<bar>q - (of_int m + 1 / 2)\<bar>" if "q \<noteq> of_int m + 1 / 2" for m
    using grid_gap [OF n, of 1 len m] that by (simp add: q_def)
  have half: "1 / (2 * real n) \<le> 1 / 2" using n by (simp add: field_simps)
  show "js_round (to_double (real len / real n)) = js_round (real len / real n)"
  proof (cases "frac q = 1 / 2")
    case True
    then have "q = of_int (2 * \<lfloor>q\<rfloor> + 1) / 2" by (simp add: frac_def field_simps)
    moreover have "1 / 2 \<le> q"
    proof -
      have "0 \<le> \<lfloor>q\<rfloor>" using \<open>0 < q\<close> by simp
      then have "0 \<le> real_of_int \<lfloor>q\<rfloor>" by simp
      moreover have "q = of_int \<lfloor>q\<rfloor> + 1 / 2" using True by (simp add: frac_def)
      ultimately show ?thesis by linarith
    qed
    moreover have "q < 2 ^ 52"
    proof -
      have "q \<le> real len" unfolding q_def using n by (simp add: field_simps mult_le_cancel_left1)
      with len50 show ?thesis by simp
    qed
    ultimately have "to_double q = q" by (rule to_double_half_integer)
    then show ?thesis by (simp add: q_def)
  next
    case False
    from js_round_stable [of q "1 / (2 * real n)" "to_double q", OF gap _ half] near False
    show ?thesis by (auto simp: q_def)
  qed
qed

lemma double_start:
  fixes k len n :: nat
  assumes n: "0 < n" and k: "k < n" and len: "0 < len" and size: "len * n \<le> 2 ^ 50"
  shows "js_round (to_double (real k * to_double (real len / real n)))
           = js_round (real k * (real len / real n))
       \<or> (js_round (to_double (real k * to_double (real len / real n)))
             = js_round (real k * (real len / real n)) - 1
          \<and> frac (real k * (real len / real n)) = 1 / 2)"
proof (cases "k = 0")
  case True
  then show ?thesis by (simp add: to_double_zero)
next
  case False
  define q where "q = real len / real n"
  define c where "c = to_double q"
  define a where "a = real k * q"
  define t where "t = real k * c"
  note ext = double_extent [OF n len size, folded q_def c_def]
  have k1: "1 \<le> real k" using False by simp
  have qpos: "0 < q" using n len by (simp add: q_def)
  have apos: "0 < a" using k1 qpos by (simp add: a_def)
  have cq: "\<bar>c - q\<bar> \<le> q / 2 ^ 53"
  proof -
    have "(1::real) / 2 ^ 1022 \<le> 1 / 2 ^ 51" by (intro frac_le power_increasing) simp_all
    moreover have "c \<le> q + \<bar>c - q\<bar>" by simp
    moreover have "1 / 2 ^ 50 \<le> q"
    proof -
      have "n \<le> len * n" using len by simp
      with size have "n \<le> 2 ^ 50" by linarith
      then have "real n \<le> 2 ^ 50" by (metis of_nat_le_iff of_nat_numeral of_nat_power)
      then have "1 / 2 ^ 50 \<le> 1 / real n" using n by (intro frac_le) simp_all
      also have "\<dots> \<le> q" unfolding q_def using n len by (intro divide_right_mono) simp_all
      finally show ?thesis .
    qed
    moreover have "(1::real) / 2 ^ 1022 \<le> 1 / 2 ^ 50"
      by (intro frac_le power_increasing) simp_all
    ultimately have "1 / 2 ^ 1022 \<le> q" by linarith
    then show ?thesis unfolding c_def by (rule to_double_error)
  qed
  have ta: "\<bar>t - a\<bar> \<le> a / 2 ^ 53"
  proof -
    have "\<bar>t - a\<bar> = real k * \<bar>c - q\<bar>" by (simp add: t_def a_def abs_mult flip: right_diff_distrib)
    also have "\<dots> \<le> real k * (q / 2 ^ 53)" using cq by (intro mult_left_mono) simp_all
    finally show ?thesis by (simp add: a_def)
  qed
  have tnorm: "1 / 2 ^ 1022 \<le> t"
  proof -
    have "(1::real) / 2 ^ 1022 \<le> 1 / 2 ^ 51" by (intro frac_le power_increasing) simp_all
    also have "\<dots> \<le> c" by (rule ext(3))
    also have "\<dots> \<le> t" unfolding t_def using k1 ext(3) by (simp add: mult_le_cancel_right1)
    finally show ?thesis .
  qed
  have pt: "\<bar>to_double t - t\<bar> \<le> t / 2 ^ 53" using tnorm by (rule to_double_error)
  have "a / 2 ^ 53 \<le> a" using apos by (simp add: field_simps)
  with ta have t2: "t \<le> 2 * a" by linarith
  have "\<bar>to_double t - a\<bar> \<le> \<bar>to_double t - t\<bar> + \<bar>t - a\<bar>" by simp
  also have "\<dots> \<le> 2 * a / 2 ^ 53 + a / 2 ^ 53"
  proof -
    have "t / 2 ^ 53 \<le> 2 * a / 2 ^ 53" using t2 by (intro divide_right_mono) simp_all
    with pt ta show ?thesis by linarith
  qed
  also have "\<dots> = 3 * a / 2 ^ 53" by simp
  also have "\<dots> < 1 / (2 * real n)"
  proof -
    have "k * len < n * len" using k len by simp
    also have "\<dots> = len * n" by (rule mult.commute)
    also note size
    finally have "k * len < 2 ^ 50" .
    then have "real (k * len) < 2 ^ 50" by (metis of_nat_less_iff of_nat_numeral of_nat_power)
    then have kl: "real k * real len < 2 ^ 50" by simp
    have "3 * a / 2 ^ 53 = (3 * (real k * real len) / 2 ^ 53) / real n"
      by (simp add: a_def q_def)
    also have "\<dots> < (1 / 2) / real n"
      using n kl by (intro divide_strict_right_mono) simp_all
    finally show ?thesis by simp
  qed
  finally have near: "\<bar>to_double t - a\<bar> < 1 / (2 * real n)" .
  have gap: "1 / (2 * real n) \<le> \<bar>a - (of_int m + 1 / 2)\<bar>" if "a \<noteq> of_int m + 1 / 2" for m
    using grid_gap [OF n, of k len m] that by (simp add: a_def q_def)
  have half: "1 / (2 * real n) \<le> 1 / 2" using n by (simp add: field_simps)
  from js_round_stable [of a "1 / (2 * real n)" "to_double t", OF gap near half]
  show ?thesis by (simp add: a_def t_def c_def q_def)
qed

section \<open>The interval scan finds the maximal runs\<close>

lemma run_start_unique:
  fixes s t e :: nat
  assumes "s \<le> e" "\<forall>i\<in>{s..e}. \<not> isGap i" "s = 0 \<or> isGap (s - 1)"
      and "t \<le> e" "\<forall>i. t \<le> i \<and> i \<le> e \<longrightarrow> \<not> isGap i" "t = 0 \<or> isGap (t - 1)"
  shows "s = t"
proof (rule ccontr)
  assume "s \<noteq> t"
  then consider "s < t" | "t < s" by linarith
  then show False
  proof cases
    case 1
    then have "t - 1 \<in> {s..e}" "t \<noteq> 0" using assms(4) by auto
    with assms(2,6) show False by blast
  next
    case 2
    then have "t \<le> s - 1 \<and> s - 1 \<le> e" "s \<noteq> 0" using assms(1) by auto
    with assms(5,3) show False by blast
  qed
qed

lemma closedRun_Suc_nogap:
  "\<not> isGap n \<Longrightarrow> closedRun isGap (Suc n) s e = closedRun isGap n s e"
  unfolding closedRun_def by (cases "e + 1 = n") auto

lemma closedRun_Suc_outside:
  "n = 0 \<or> isGap (n - 1) \<Longrightarrow> closedRun isGap (Suc n) s e = closedRun isGap n s e"
  unfolding closedRun_def by (cases "e + 1 = n") auto

lemma closedRun_Suc_close:
  fixes s e start n :: nat
  assumes "isGap n" "start < n" "\<forall>i. start \<le> i \<and> i < n \<longrightarrow> \<not> isGap i"
      "start = 0 \<or> isGap (start - 1)"
  shows "closedRun isGap (Suc n) s e \<longleftrightarrow> closedRun isGap n s e \<or> (s = start \<and> e = n - 1)"
proof
  assume c: "closedRun isGap (Suc n) s e"
  show "closedRun isGap n s e \<or> (s = start \<and> e = n - 1)"
  proof (cases "e + 1 = n")
    case True
    have "s = start"
    proof (rule run_start_unique)
      show "s \<le> e" "\<forall>i\<in>{s..e}. \<not> isGap i" "s = 0 \<or> isGap (s - 1)"
        using c by (auto simp: closedRun_def)
      show "start \<le> e" using assms(2) True by simp
      show "\<forall>i. start \<le> i \<and> i \<le> e \<longrightarrow> \<not> isGap i" using assms(3) True by auto
      show "start = 0 \<or> isGap (start - 1)" by (rule assms(4))
    qed
    with True show ?thesis by auto
  next
    case False
    with c show ?thesis by (auto simp: closedRun_def)
  qed
next
  assume "closedRun isGap n s e \<or> (s = start \<and> e = n - 1)"
  then show "closedRun isGap (Suc n) s e"
  proof
    assume "closedRun isGap n s e"
    then show ?thesis by (auto simp: closedRun_def)
  next
    assume "s = start \<and> e = n - 1"
    with assms show ?thesis by (auto simp: closedRun_def)
  qed
qed

lemma scanInv_step:
  assumes "scanInv isGap n st"
  shows "scanInv isGap (Suc n) (findIntervals_step isGap n st)"
proof -
  obtain intervals inContent start where st: "st = (intervals, inContent, start)"
    by (cases st) auto
  note inv = assms [unfolded st scanInv_def, simplified]
  show ?thesis
  proof (cases "isGap n")
    case gap: True
    show ?thesis
    proof (cases inContent)
      case True
      with inv have facts: "start < n" "\<forall>i. start \<le> i \<and> i < n \<longrightarrow> \<not> isGap i"
        "start = 0 \<or> isGap (start - 1)" by auto
      have "{runInterval s e | s e. closedRun isGap (Suc n) s e}
          = insert (runInterval start (n - 1)) {runInterval s e | s e. closedRun isGap n s e}"
        unfolding closedRun_Suc_close [OF gap facts] by auto
      moreover have "runInterval start (n - 1)
          = \<lparr>iv_start = start, iv_end = n - 1, iv_size = n - start\<rparr>"
        using facts(1) by (simp add: runInterval_def)
      ultimately show ?thesis
        using inv gap True by (simp add: st scanInv_def findIntervals_step_def)
    next
      case False
      with inv have "n = 0 \<or> isGap (n - 1)" by auto
      then show ?thesis
        using inv gap False
        by (simp add: st scanInv_def findIntervals_step_def closedRun_Suc_outside)
    qed
  next
    case nogap: False
    show ?thesis
    proof (cases inContent)
      case True
      with inv have facts: "start < n" "\<forall>i. start \<le> i \<and> i < n \<longrightarrow> \<not> isGap i"
        "start = 0 \<or> isGap (start - 1)" by auto
      have "\<forall>i. start \<le> i \<and> i < Suc n \<longrightarrow> \<not> isGap i"
        using facts(2) nogap by (auto simp: less_Suc_eq)
      then show ?thesis
        using inv nogap True facts
        by (simp add: st scanInv_def findIntervals_step_def closedRun_Suc_nogap)
    next
      case False
      with inv have "n = 0 \<or> isGap (n - 1)" by auto
      then show ?thesis
        using inv nogap False
        by (auto simp: st scanInv_def findIntervals_step_def closedRun_Suc_nogap less_Suc_eq)
    qed
  qed
qed

lemma scanInv_fold:
  "scanInv isGap n (fold (findIntervals_step isGap) [0..<n] ([], False, 0))"
proof (induction n)
  case 0
  show ?case by (simp add: scanInv_def closedRun_def)
next
  case (Suc n)
  then show ?case using scanInv_step [of isGap n] by simp
qed

lemma contentRun_cases:
  "contentRun isGap len s e \<longleftrightarrow>
     closedRun isGap len s e
     \<or> (s \<le> e \<and> e + 1 = len \<and> (\<forall>i\<in>{s..e}. \<not> isGap i) \<and> (s = 0 \<or> isGap (s - 1)))"
  unfolding contentRun_def closedRun_def by (cases "e + 1 = len") auto

lemma open_run_iff:
  fixes s e start len :: nat
  assumes "start < len" "\<forall>i. start \<le> i \<and> i < len \<longrightarrow> \<not> isGap i"
      "start = 0 \<or> isGap (start - 1)"
  shows "(s \<le> e \<and> e + 1 = len \<and> (\<forall>i\<in>{s..e}. \<not> isGap i) \<and> (s = 0 \<or> isGap (s - 1)))
         \<longleftrightarrow> s = start \<and> e = len - 1"
proof
  assume a: "s \<le> e \<and> e + 1 = len \<and> (\<forall>i\<in>{s..e}. \<not> isGap i) \<and> (s = 0 \<or> isGap (s - 1))"
  have "s = start"
  proof (rule run_start_unique)
    show "s \<le> e" "\<forall>i\<in>{s..e}. \<not> isGap i" "s = 0 \<or> isGap (s - 1)" using a by auto
    show "start \<le> e" using assms(1) a by simp
    show "\<forall>i. start \<le> i \<and> i \<le> e \<longrightarrow> \<not> isGap i" using assms(2) a by auto
    show "start = 0 \<or> isGap (start - 1)" by (rule assms(3))
  qed
  with a show "s = start \<and> e = len - 1" by auto
next
  assume "s = start \<and> e = len - 1"
  with assms show "s \<le> e \<and> e + 1 = len \<and> (\<forall>i\<in>{s..e}. \<not> isGap i) \<and> (s = 0 \<or> isGap (s - 1))"
    by auto
qed

lemma set_findIntervals_scan:
  "set (findIntervals_scan len isGap) = {runInterval s e | s e. contentRun isGap len s e}"
proof -
  obtain intervals inContent start
    where st: "fold (findIntervals_step isGap) [0..<len] ([], False, 0) = (intervals, inContent, start)"
    by (metis prod_cases3)
  note inv = scanInv_fold [of isGap len, unfolded st scanInv_def, simplified]
  show ?thesis
  proof (cases inContent)
    case True
    with inv have facts: "start < len" "\<forall>i. start \<le> i \<and> i < len \<longrightarrow> \<not> isGap i"
      "start = 0 \<or> isGap (start - 1)" by auto
    have "{runInterval s e | s e. contentRun isGap len s e}
        = insert (runInterval start (len - 1)) {runInterval s e | s e. closedRun isGap len s e}"
      unfolding contentRun_cases open_run_iff [OF facts] by auto
    moreover have "runInterval start (len - 1)
        = \<lparr>iv_start = start, iv_end = len - 1, iv_size = len - start\<rparr>"
      using facts(1) by (simp add: runInterval_def)
    ultimately show ?thesis
      using inv True by (simp add: findIntervals_scan_def st)
  next
    case False
    with inv have "len = 0 \<or> isGap (len - 1)" by auto
    then have "contentRun isGap len s e = closedRun isGap len s e" for s e
      unfolding contentRun_def closedRun_def by (cases "e + 1 = len") auto
    then show ?thesis
      using inv False by (simp add: findIntervals_scan_def st)
  qed
qed

section \<open>The projection profiles are the brightness sums\<close>

lemma row_pass:
  assumes "length cs = w" "y < length rs" "n \<le> w"
  shows "fold (\<lambda>x (colSums, rowSums). (colSums[x := colSums ! x + b x], rowSums[y := rowSums ! y + b x]))
           [0..<n] (cs, rs)
         = (map (\<lambda>x. if x < n then cs ! x + b x else cs ! x) [0..<w],
            rs[y := rs ! y + (\<Sum>x<n. b x)])"
  using assms(3)
proof (induction n)
  case 0
  have "map (\<lambda>x. cs ! x) [0..<w] = cs" using assms(1) map_nth [of cs] by simp
  then show ?case by simp
next
  case (Suc n)
  then have n: "n < w" by simp
  have cs: "(map (\<lambda>x. if x < n then cs ! x + b x else cs ! x) [0..<w])
              [n := map (\<lambda>x. if x < n then cs ! x + b x else cs ! x) [0..<w] ! n + b n]
          = map (\<lambda>x. if x < Suc n then cs ! x + b x else cs ! x) [0..<w]"
    using n by (intro nth_equalityI) (auto simp: nth_list_update less_Suc_eq)
  have rs: "(rs[y := rs ! y + (\<Sum>x<n. b x)])[y := rs[y := rs ! y + (\<Sum>x<n. b x)] ! y + b n]
          = rs[y := rs ! y + (\<Sum>x<Suc n. b x)]"
    using assms(2) by (simp add: add.assoc)
  let ?f = "\<lambda>x (colSums, rowSums). (colSums[x := colSums ! x + b x], rowSums[y := rowSums ! y + b x])"
  have "fold ?f [0..<Suc n] (cs, rs) = ?f n (fold ?f [0..<n] (cs, rs))" by simp
  also have "fold ?f [0..<n] (cs, rs)
      = (map (\<lambda>x. if x < n then cs ! x + b x else cs ! x) [0..<w], rs[y := rs ! y + (\<Sum>x<n. b x)])"
    using Suc by simp
  finally show ?case by (simp only: prod.case cs rs)
qed

lemma profile_passes:
  assumes "m \<le> h"
  shows "fold (\<lambda>y acc. fold (\<lambda>x (colSums, rowSums).
                 (colSums[x := colSums ! x + b x y], rowSums[y := rowSums ! y + b x y]))
               [0..<w] acc)
           [0..<m] (replicate w 0, replicate h 0)
         = (map (\<lambda>x. \<Sum>y<m. b x y) [0..<w],
            map (\<lambda>y. if y < m then (\<Sum>x<w. b x y) else 0) [0..<h])"
  using assms
proof (induction m)
  case 0
  show ?case by (simp add: map_replicate_const)
next
  case (Suc m)
  then have m: "m < h" by simp
  let ?cs = "map (\<lambda>x. \<Sum>y<m. b x y) [0..<w]"
  let ?rs = "map (\<lambda>y. if y < m then (\<Sum>x<w. b x y) else 0) [0..<h]"
  have pass: "fold (\<lambda>x (colSums, rowSums).
                 (colSums[x := colSums ! x + b x m], rowSums[m := rowSums ! m + b x m]))
               [0..<w] (?cs, ?rs)
        = (map (\<lambda>x. if x < w then ?cs ! x + b x m else ?cs ! x) [0..<w],
           ?rs[m := ?rs ! m + (\<Sum>x<w. b x m)])"
    using m by (intro row_pass) simp_all
  have cs: "map (\<lambda>x. if x < w then ?cs ! x + b x m else ?cs ! x) [0..<w]
          = map (\<lambda>x. \<Sum>y<Suc m. b x y) [0..<w]"
    by (intro nth_equalityI) simp_all
  have rs: "?rs[m := ?rs ! m + (\<Sum>x<w. b x m)]
          = map (\<lambda>y. if y < Suc m then (\<Sum>x<w. b x y) else 0) [0..<h]"
    using m by (intro nth_equalityI) (auto simp: nth_list_update less_Suc_eq)
  let ?g = "\<lambda>y acc. fold (\<lambda>x (colSums, rowSums).
                 (colSums[x := colSums ! x + b x y], rowSums[y := rowSums ! y + b x y]))
               [0..<w] acc"
  have "fold ?g [0..<Suc m] (replicate w 0, replicate h 0)
      = ?g m (fold ?g [0..<m] (replicate w 0, replicate h 0))" by simp
  also have "fold ?g [0..<m] (replicate w 0, replicate h 0) = (?cs, ?rs)"
    using Suc by simp
  finally show ?case by (simp only: pass cs rs)
qed

lemma projectionProfiles_sums:
  "projectionProfiles imageData
     = (map (\<lambda>x. \<Sum>y<img_height imageData. brightness imageData x y) [0..<img_width imageData],
        map (\<lambda>y. \<Sum>x<img_width imageData. brightness imageData x y) [0..<img_height imageData])"
proof -
  have "projectionProfiles imageData
      = fold (\<lambda>y acc. fold (\<lambda>x (colSums, rowSums).
                 (colSums[x := colSums ! x + brightness imageData x y],
                  rowSums[y := rowSums ! y + brightness imageData x y]))
               [0..<img_width imageData] acc)
           [0..<img_height imageData]
           (replicate (img_width imageData) 0, replicate (img_height imageData) 0)"
    by (simp only: projectionProfiles_def brightness_def Let_def)
  also have "\<dots> = (map (\<lambda>x. \<Sum>y<img_height imageData. brightness imageData x y) [0..<img_width imageData],
        map (\<lambda>y. if y < img_height imageData then (\<Sum>x<img_width imageData. brightness imageData x y) else 0)
          [0..<img_height imageData])"
    by (rule profile_passes) simp
  also have "map (\<lambda>y. if y < img_height imageData then (\<Sum>x<img_width imageData. brightness imageData x y) else 0)
          [0..<img_height imageData]
       = map (\<lambda>y. \<Sum>x<img_width imageData. brightness imageData x y) [0..<img_height imageData]"
    by simp
  finally show ?thesis .
qed

section \<open>The gutter grid\<close>

lemma gutterGrid_Some:
  assumes "rowIvs \<noteq> []" "colIvs \<noteq> []"
  shows "gutterGrid rowIvs colIvs =
     Some \<lparr>grid_rows = length rowIvs, grid_cols = length colIvs,
           grid_cells = filter (\<lambda>c. real_of_int (cell_width c * cell_height c)
                                      > real_of_int (medianArea (crossProduct rowIvs colIvs)) * (5 / 10))
                          (crossProduct rowIvs colIvs),
           grid_confidence = 95 / 100\<rparr>"
proof -
  have cells: "fold (\<lambda>rowIv acc. fold (\<lambda>colIv acc'. acc' @ [gutterCell rowIv colIv]) colIvs acc)
                 rowIvs [] = crossProduct rowIvs colIvs"
    by (simp add: fold_push_nested crossProduct_def gutterCell_def)
  have area: "cellArea = (\<lambda>c. cell_width c * cell_height c)"
    by (simp add: cellArea_def fun_eq_iff)
  show ?thesis
    using assms by (simp add: gutterGrid_def cells Let_def medianArea_def area)
qed

lemma gutterGrid_None: "gutterGrid rowIvs colIvs = None \<longleftrightarrow> rowIvs = [] \<or> colIvs = []"
  by (simp add: gutterGrid_def Let_def)

lemma length_crossProduct: "length (crossProduct rowIvs colIvs) = length rowIvs * length colIvs"
  by (induction rowIvs) (simp_all add: crossProduct_def)

lemma set_crossProduct:
  "set (crossProduct rowIvs colIvs) =
     {\<lparr>cell_x = int (iv_start c), cell_y = int (iv_start r),
       cell_width = int (iv_size c), cell_height = int (iv_size r)\<rparr> | r c.
        r \<in> set rowIvs \<and> c \<in> set colIvs}"
  by (auto simp: crossProduct_def)

text \<open>Retained intervals lie within the axis and are not empty.\<close>

lemma findIntervals_bounds:
  assumes "iv \<in> set (findIntervals len isGap)"
  shows "0 < iv_size iv \<and> iv_start iv + iv_size iv \<le> len"
proof -
  from assms have "iv \<in> set (findIntervals_scan len isGap)"
    by (simp add: findIntervals_def)
  then obtain s e where "iv = runInterval s e" "contentRun isGap len s e"
    unfolding set_findIntervals_scan by blast
  then show ?thesis by (auto simp: runInterval_def contentRun_def)
qed

lemma set_findIntervals:
  "set (findIntervals len isGap) =
     {runInterval s e | s e. contentRun isGap len s e \<and> real (e - s + 1) > real len * (5 / 100)}"
  unfolding findIntervals_def set_filter set_findIntervals_scan
  by (auto simp: runInterval_def)

lemma findIntervals_empty_iff:
  "findIntervals len isGap = [] \<longleftrightarrow>
     \<not> (\<exists>s e. contentRun isGap len s e \<and> real (e - s + 1) > real len * (5 / 100))"
proof -
  have "findIntervals len isGap = [] \<longleftrightarrow> set (findIntervals len isGap) = {}" by simp
  also have "\<dots> \<longleftrightarrow> \<not> (\<exists>s e. contentRun isGap len s e \<and> real (e - s + 1) > real len * (5 / 100))"
    unfolding set_findIntervals by blast
  finally show ?thesis .
qed

text \<open>The median of positive areas.\<close>

lemma sorted_nth_drop:
  assumes "sorted xs" "k < length xs" "a \<in> set (drop k xs)"
  shows "xs ! k \<le> (a::int)"
proof -
  from assms(3) obtain j where "j < length (drop k xs)" "a = drop k xs ! j"
    by (auto simp: in_set_conv_nth)
  then have "a = xs ! (k + j)" "k + j < length xs" by auto
  with assms(1) show ?thesis by (simp add: sorted_nth_mono)
qed

lemma count_at_least_median:
  fixes xs :: "int list"
  assumes "xs \<noteq> []"
  defines "m \<equiv> sort xs ! (length xs div 2)"
  shows "length xs \<le> 2 * length (filter (\<lambda>a. m \<le> a) xs)"
proof -
  let ?s = "sort xs" and ?k = "length xs div 2"
  have k: "?k < length ?s" using assms(1) by (cases xs) simp_all
  have "length (filter (\<lambda>a. m \<le> a) xs) = size (filter_mset (\<lambda>a. m \<le> a) (mset xs))"
    by (metis mset_filter size_mset)
  also have "\<dots> = size (filter_mset (\<lambda>a. m \<le> a) (mset ?s))" by simp
  also have "\<dots> = length (filter (\<lambda>a. m \<le> a) ?s)"
    by (metis mset_filter size_mset)
  also have "\<dots> = length (filter (\<lambda>a. m \<le> a) (take ?k ?s)) + length (filter (\<lambda>a. m \<le> a) (drop ?k ?s))"
    by (metis append_take_drop_id filter_append length_append)
  also have "filter (\<lambda>a. m \<le> a) (drop ?k ?s) = drop ?k ?s"
    unfolding m_def using sorted_nth_drop [OF sorted_sort k] by (simp add: filter_id_conv)
  finally have "length xs - ?k \<le> length (filter (\<lambda>a. m \<le> a) xs)" by simp
  then show ?thesis by linarith
qed

lemma median_mem:
  fixes xs :: "int list"
  assumes "xs \<noteq> []"
  shows "sort xs ! (length xs div 2) \<in> set xs"
proof -
  have "length xs div 2 < length (sort xs)" using assms by (cases xs) simp_all
  then have "sort xs ! (length xs div 2) \<in> set (sort xs)" by (rule nth_mem)
  then show ?thesis by simp
qed

lemma detectGridWithGutters_Decoded:
  "detectGridWithGutters (Decoded imageData)
     = gutterGrid (rowIntervalsOf imageData) (colIntervalsOf imageData)"
  by (simp add: detectGridWithGutters_def)

lemma gutter_Some_D:
  assumes "detectGridWithGutters (Decoded imageData) = Some g"
  shows "rowIntervalsOf imageData \<noteq> []" and "colIntervalsOf imageData \<noteq> []"
    and "g = \<lparr>grid_rows = length (rowIntervalsOf imageData),
              grid_cols = length (colIntervalsOf imageData),
              grid_cells = filter (\<lambda>c. real_of_int (cell_width c * cell_height c)
                  > real_of_int (medianArea (crossProduct (rowIntervalsOf imageData)
                                    (colIntervalsOf imageData))) * (5 / 10))
                (crossProduct (rowIntervalsOf imageData) (colIntervalsOf imageData)),
              grid_confidence = 95 / 100\<rparr>"
proof -
  from assms have "gutterGrid (rowIntervalsOf imageData) (colIntervalsOf imageData) \<noteq> None"
    by (simp add: detectGridWithGutters_Decoded)
  then have ne: "\<not> (rowIntervalsOf imageData = [] \<or> colIntervalsOf imageData = [])"
    by (simp only: gutterGrid_None not_False_eq_True)
  then show r: "rowIntervalsOf imageData \<noteq> []" and c: "colIntervalsOf imageData \<noteq> []"
    by simp_all
  from assms show "g = \<lparr>grid_rows = length (rowIntervalsOf imageData),
              grid_cols = length (colIntervalsOf imageData),
              grid_cells = filter (\<lambda>c. real_of_int (cell_width c * cell_height c)
                  > real_of_int (medianArea (crossProduct (rowIntervalsOf imageData)
                                    (colIntervalsOf imageData))) * (5 / 10))
                (crossProduct (rowIntervalsOf imageData) (colIntervalsOf imageData)),
              grid_confidence = 95 / 100\<rparr>"
    by (simp add: detectGridWithGutters_Decoded gutterGrid_Some [OF r c])
qed

lemma gutterExample_detected:
  "detectGridWithGutters (Decoded gutterExample) =
     Some \<lparr>grid_rows = 1, grid_cols = 2,
        grid_cells = [\<lparr>cell_x = 0, cell_y = 0, cell_width = 1, cell_height = 2\<rparr>,
                      \<lparr>cell_x = 2, cell_y = 0, cell_width = 1, cell_height = 2\<rparr>],
        grid_confidence = 95 / 100\<rparr>"
  by code_simp

lemma crossProduct_positive:
  assumes "c \<in> set (crossProduct (findIntervals h rowGap) (findIntervals w colGap))"
  shows "0 \<le> cell_x c \<and> 0 \<le> cell_y c \<and> 0 < cell_width c \<and> 0 < cell_height c
       \<and> cell_x c + cell_width c \<le> int w \<and> cell_y c + cell_height c \<le> int h"
proof -
  from assms obtain r k where rk: "r \<in> set (findIntervals h rowGap)"
      "k \<in> set (findIntervals w colGap)"
      "c = \<lparr>cell_x = int (iv_start k), cell_y = int (iv_start r),
            cell_width = int (iv_size k), cell_height = int (iv_size r)\<rparr>"
    unfolding set_crossProduct by blast
  from findIntervals_bounds [OF rk(1)] findIntervals_bounds [OF rk(2)] rk(3)
  show ?thesis by simp
qed

lemma filter_length_mono:
  assumes "\<And>x. x \<in> set xs \<Longrightarrow> Q x \<Longrightarrow> P x"
  shows "length (filter Q xs) \<le> length (filter P xs)"
  using assms by (induction xs) auto

section \<open>Cells of the regular partition\<close>

lemma regular_cell_mem:
  assumes "c \<in> set (grid_cells (createGridForDimensions w h rows cols))"
  obtains row col where "row < rows" "col < cols"
    "c = regularCell (real w / real cols) (real h / real rows) row col"
  using assms unfolding createGrid_cells by auto

lemma regular_cell_in:
  assumes "row < rows" "col < cols"
  shows "regularCell (real w / real cols) (real h / real rows) row col
           \<in> set (grid_cells (createGridForDimensions w h rows cols))"
proof -
  have "regularCell (real w / real cols) (real h / real rows) row col
      \<in> regularCell (real w / real cols) (real h / real rows) row ` {0..<cols}"
    using assms(2) by simp
  then show ?thesis
    unfolding createGrid_cells using assms(1) by auto
qed

lemma regular_cell_bounds:
  assumes "0 < rows" "0 < cols"
      and "c \<in> set (grid_cells (createGridForDimensions w h rows cols))"
  shows "0 \<le> cell_x c \<and> 0 \<le> cell_y c \<and> 0 \<le> cell_width c \<and> 0 \<le> cell_height c
       \<and> cell_x c + cell_width c \<le> int w + 1 \<and> cell_y c + cell_height c \<le> int h + 1"
proof -
  from assms(3) obtain row col where rc: "row < rows" "col < cols"
    "c = regularCell (real w / real cols) (real h / real rows) row col"
    by (rule regular_cell_mem)
  have "0 \<le> js_round (real col * (real w / real cols))" "0 \<le> js_round (real row * (real h / real rows))"
    "0 \<le> js_round (real w / real cols)" "0 \<le> js_round (real h / real rows)"
    by (simp_all add: js_round_nonneg)
  moreover note axis_end_le [OF rc(2), of w] axis_end_le [OF rc(1), of h]
  ultimately show ?thesis by (simp add: rc(3) regularCell_def)
qed

lemma regular_cell_extent_pos:
  assumes "0 < n" "n \<le> 2 * len"
  shows "0 < js_round (real len / real n)"
proof (rule js_round_pos)
  have "real n \<le> 2 * real len" using assms(2) by (metis of_nat_le_iff of_nat_mult of_nat_numeral)
  then show "1 / 2 \<le> real len / real n" using assms(1) by (simp add: field_simps)
qed

lemma createGrid_3_3_1_2:
  "grid_cells (createGridForDimensions 3 3 1 2)
     = [\<lparr>cell_x = 0, cell_y = 0, cell_width = 2, cell_height = 3\<rparr>,
        \<lparr>cell_x = 2, cell_y = 0, cell_width = 2, cell_height = 3\<rparr>]"
  by code_simp

lemma createGrid_1_1_1_3:
  "grid_cells (createGridForDimensions 1 1 1 3)
     = [\<lparr>cell_x = 0, cell_y = 0, cell_width = 0, cell_height = 1\<rparr>,
        \<lparr>cell_x = 0, cell_y = 0, cell_width = 0, cell_height = 1\<rparr>,
        \<lparr>cell_x = 1, cell_y = 0, cell_width = 0, cell_height = 1\<rparr>]"
  by code_simp

lemma createGrid_10_1_1_21:
  "map cell_width (grid_cells (createGridForDimensions 10 1 1 21)) = replicate 21 0"
  by code_simp

lemma regular_cell_extent_zero:
  assumes "2 * len < n"
  shows "js_round (real len / real n) = 0"
proof -
  have n: "0 < real n" using assms by simp
  have "2 * real len < real n" using assms by (metis of_nat_less_iff of_nat_mult of_nat_numeral)
  then have "real len / real n < 1 / 2" using n by (simp add: field_simps)
  moreover have "0 \<le> real len / real n" by simp
  ultimately show ?thesis unfolding js_round_def by linarith
qed

section \<open>The regular partition in doubles\<close>

lemma createGrid_double_cells:
  "grid_cells (createGridForDimensions_double w h rows cols)
     = concat (map (\<lambda>row. map (regularCell_double (to_double (real w / real cols))
                                  (to_double (real h / real rows)) row) [0..<cols])
         [0..<rows])"
  by (simp add: createGridForDimensions_double_def Let_def fold_push_nested)

lemma createGrid_double_nth:
  assumes "row < rows" "col < cols"
  shows "grid_cells (createGridForDimensions_double w h rows cols) ! (row * cols + col)
     = regularCell_double (to_double (real w / real cols)) (to_double (real h / real rows)) row col"
  using assms by (simp add: createGrid_double_cells nth_concat_uniform)

lemma createGrid_double_15_22:
  "cell_x (grid_cells (createGridForDimensions_double 15 1 1 22) ! 11) = 7"
proof -
  have "grid_cells (createGridForDimensions_double 15 1 1 22) ! (0 * 22 + 11)
     = regularCell_double (to_double (real 15 / real 22)) (to_double (real 1 / real 1)) 0 11"
    by (rule createGrid_double_nth) simp_all
  moreover have "js_round (to_double (11 * to_double (15 / 22))) = 7" by code_simp
  ultimately show ?thesis by (simp add: regularCell_double_def)
qed

lemma axis_cover_steps:
  fixes st :: "nat \<Rightarrow> int" and ext :: int
  assumes n: "0 < n" and first: "st 0 \<le> 0"
      and step: "\<And>k. Suc k < n \<Longrightarrow> st (Suc k) \<le> st k + ext + 1"
      and last: "int len \<le> st (n - 1) + ext" and p: "p < len"
  shows "\<exists>k<n. st k \<le> int p \<and> int p \<le> st k + ext"
proof -
  define Q where "Q k \<longleftrightarrow> k < n \<and> st k \<le> int p" for k
  have Q0: "Q 0" using n first by (simp add: Q_def)
  have bound: "\<And>k. Q k \<Longrightarrow> k \<le> n" by (simp add: Q_def)
  define g where "g = (GREATEST k. Q k)"
  have Qg: "Q g" unfolding g_def using Q0 bound by (rule GreatestI_nat)
  have gmax: "k \<le> g" if "Q k" for k
    unfolding g_def using that bound by (rule Greatest_le_nat)
  have "int p \<le> st g + ext"
  proof (cases "Suc g < n")
    case True
    then have "\<not> Q (Suc g)" using gmax [of "Suc g"] by auto
    with True have "int p < st (Suc g)" by (simp add: Q_def)
    with step [OF True] show ?thesis by simp
  next
    case False
    with Qg have "g = n - 1" unfolding Q_def by linarith
    with last p show ?thesis by simp
  qed
  with Qg show ?thesis unfolding Q_def by blast
qed

text \<open>The starts and the extent along one axis, as the doubles give them.\<close>

lemma double_axis:
  fixes len n :: nat
  assumes n: "0 < n" and len: "0 < len" and size: "len * n \<le> 2 ^ 50"
  defines "q \<equiv> real len / real n"
  defines "st \<equiv> \<lambda>k. js_round (to_double (real k * to_double q))"
  shows "js_round (to_double q) = js_round q"
    and "st 0 = 0"
    and "\<And>k. k < n \<Longrightarrow> 0 \<le> st k \<and> st k + js_round q \<le> int len + 1"
    and "\<And>k. Suc k < n \<Longrightarrow> st (Suc k) \<le> st k + js_round q + 1"
    and "int len \<le> st (n - 1) + js_round q"
proof -
  note start = double_start [OF n _ len size, folded q_def]
  have qpos: "0 \<le> q" by (simp add: q_def)
  show ext: "js_round (to_double q) = js_round q"
    unfolding q_def by (rule double_extent(2) [OF n len size])
  show "st 0 = 0" by (simp add: st_def to_double_zero js_round_zero)
  have le: "st k \<le> js_round (real k * q)" if "k < n" for k
    using start [OF that] by (auto simp: st_def)
  show "0 \<le> st k \<and> st k + js_round q \<le> int len + 1" if "k < n" for k
  proof -
    have "0 \<le> to_double (real k * to_double q)"
      using qpos by (intro to_double_nonneg mult_nonneg_nonneg) simp_all
    then have "0 \<le> st k" unfolding st_def by (rule js_round_nonneg)
    moreover have "js_round (real k * q) + js_round q \<le> int len + 1"
      unfolding q_def using that by (rule axis_end_le)
    ultimately show ?thesis using le [OF that] by simp
  qed
  have tie: "st k = \<lfloor>real k * q\<rfloor>" "real k * q = of_int \<lfloor>real k * q\<rfloor> + 1 / 2"
    if "k < n" "st k \<noteq> js_round (real k * q)" for k
  proof -
    from start [OF that(1)] that(2)
    have a: "st k = js_round (real k * q) - 1" and f: "frac (real k * q) = 1 / 2"
      by (auto simp: st_def)
    from f show v: "real k * q = of_int \<lfloor>real k * q\<rfloor> + 1 / 2" by (simp add: frac_def)
    have "js_round (real k * q) = \<lfloor>real k * q\<rfloor> + 1"
      unfolding js_round_def using v by linarith
    with a show "st k = \<lfloor>real k * q\<rfloor>" by simp
  qed
  show "st (Suc k) \<le> st k + js_round q + 1" if "Suc k < n" for k
  proof (cases "st k = js_round (real k * q)")
    case True
    have "st (Suc k) \<le> js_round (real (Suc k) * q)" using that by (rule le)
    also have "\<dots> \<le> js_round (real k * q) + js_round q + 1" by (rule axis_step)
    finally show ?thesis using True by simp
  next
    case False
    from that have k: "k < n" by simp
    note t = tie [OF k False]
    have "real (Suc k) * q = of_int (\<lfloor>real k * q\<rfloor> + 1) + (q - 1 / 2)"
      using t(2) by (simp add: algebra_simps)
    then have "js_round (real (Suc k) * q) = \<lfloor>real k * q\<rfloor> + 1 + \<lfloor>q\<rfloor>"
      unfolding js_round_def by (simp add: add.commute)
    moreover have "\<lfloor>q\<rfloor> \<le> js_round q" unfolding js_round_def by (intro floor_mono) simp
    moreover have "st (Suc k) \<le> js_round (real (Suc k) * q)" using that by (rule le)
    ultimately show ?thesis using t(1) by simp
  qed
  show "int len \<le> st (n - 1) + js_round q"
  proof (cases "st (n - 1) = js_round (real (n - 1) * q)")
    case True
    then show ?thesis unfolding q_def using axis_last [OF n, of len] by simp
  next
    case False
    have k: "n - 1 < n" using n by simp
    note t = tie [OF k False]
    have "real (n - 1) * q + q = real len"
      using n by (simp add: q_def field_simps of_nat_diff)
    with t(2) have "q + 1 / 2 = of_int (int len - \<lfloor>real (n - 1) * q\<rfloor>)" by simp
    then have "js_round q = int len - \<lfloor>real (n - 1) * q\<rfloor>"
      unfolding js_round_def by (metis floor_of_int)
    with t(1) show ?thesis by simp
  qed
qed

lemma regular_cell_double_mem:
  assumes "c \<in> set (grid_cells (createGridForDimensions_double w h rows cols))"
  obtains row col where "row < rows" "col < cols"
    "c = regularCell_double (to_double (real w / real cols)) (to_double (real h / real rows)) row col"
  using assms unfolding createGrid_double_cells by auto

lemma regular_cell_double_in:
  assumes "row < rows" "col < cols"
  shows "regularCell_double (to_double (real w / real cols)) (to_double (real h / real rows)) row col
           \<in> set (grid_cells (createGridForDimensions_double w h rows cols))"
proof -
  have "regularCell_double (to_double (real w / real cols)) (to_double (real h / real rows)) row col
      \<in> regularCell_double (to_double (real w / real cols)) (to_double (real h / real rows)) row
          ` {0..<cols}"
    using assms(2) by simp
  then show ?thesis
    unfolding createGrid_double_cells using assms(1) by auto
qed

text \<open>
  The cell bounds and the cover of the regular partition hold of the doubles as well,
  for sizes a double holds exactly.
\<close>

lemma cell_bounds_double:
  assumes "1 \<le> w" "1 \<le> h" "1 \<le> rows" "1 \<le> cols"
      and "w * cols \<le> 2 ^ 50" "h * rows \<le> 2 ^ 50"
      and c: "c \<in> set (grid_cells (createGridForDimensions_double w h rows cols))"
  shows "0 \<le> cell_x c \<and> 0 \<le> cell_y c \<and> 0 \<le> cell_width c \<and> 0 \<le> cell_height c
       \<and> cell_x c + cell_width c \<le> int w + 1 \<and> cell_y c + cell_height c \<le> int h + 1
       \<and> (cols \<le> 2 * w \<longrightarrow> 0 < cell_width c) \<and> (rows \<le> 2 * h \<longrightarrow> 0 < cell_height c)"
proof -
  have pos: "0 < w" "0 < h" "0 < rows" "0 < cols" using assms(1-4) by simp_all
  note ax = double_axis [OF pos(4) pos(1) assms(5)]
  note ay = double_axis [OF pos(3) pos(2) assms(6)]
  from c obtain row col where rc: "row < rows" "col < cols"
    "c = regularCell_double (to_double (real w / real cols)) (to_double (real h / real rows)) row col"
    by (rule regular_cell_double_mem)
  have wd: "cell_width c = js_round (real w / real cols)"
    and ht: "cell_height c = js_round (real h / real rows)"
    by (simp_all add: rc(3) regularCell_double_def ax(1) ay(1))
  have "0 \<le> js_round (real w / real cols)" "0 \<le> js_round (real h / real rows)"
    by (simp_all add: js_round_nonneg)
  moreover have "0 < js_round (real w / real cols)" if "cols \<le> 2 * w"
    using pos(4) that by (rule regular_cell_extent_pos)
  moreover have "0 < js_round (real h / real rows)" if "rows \<le> 2 * h"
    using pos(3) that by (rule regular_cell_extent_pos)
  moreover have "cell_x c = js_round (to_double (real col * to_double (real w / real cols)))"
    "cell_y c = js_round (to_double (real row * to_double (real h / real rows)))"
    by (simp_all add: rc(3) regularCell_double_def)
  ultimately show ?thesis
    using ax(3) [OF rc(2)] ay(3) [OF rc(1)] by (simp add: wd ht)
qed

lemma covers_double:
  assumes "1 \<le> w" "1 \<le> h" "1 \<le> rows" "1 \<le> cols"
      and "cols \<le> 2 * w" "rows \<le> 2 * h"
      and "w * cols \<le> 2 ^ 50" "h * rows \<le> 2 ^ 50"
      and p: "px < w" "py < h"
  shows "\<exists>c\<in>set (grid_cells (createGridForDimensions_double w h rows cols)).
            0 < cell_width c \<and> 0 < cell_height c
          \<and> cell_x c \<le> int px \<and> int px \<le> cell_x c + cell_width c
          \<and> cell_y c \<le> int py \<and> int py \<le> cell_y c + cell_height c"
proof -
  have pos: "0 < w" "0 < h" "0 < rows" "0 < cols" using assms(1-4) by simp_all
  note ax = double_axis [OF pos(4) pos(1) assms(7)]
  note ay = double_axis [OF pos(3) pos(2) assms(8)]
  let ?sx = "\<lambda>k. js_round (to_double (real k * to_double (real w / real cols)))"
  let ?sy = "\<lambda>k. js_round (to_double (real k * to_double (real h / real rows)))"
  have "\<exists>k<cols. ?sx k \<le> int px \<and> int px \<le> ?sx k + js_round (real w / real cols)"
    using pos(4) _ ax(4) ax(5) p(1) by (rule axis_cover_steps) (simp add: to_double_zero js_round_zero)
  then obtain col where col: "col < cols" "?sx col \<le> int px"
    "int px \<le> ?sx col + js_round (real w / real cols)" by blast
  have "\<exists>k<rows. ?sy k \<le> int py \<and> int py \<le> ?sy k + js_round (real h / real rows)"
    using pos(3) _ ay(4) ay(5) p(2) by (rule axis_cover_steps) (simp add: to_double_zero js_round_zero)
  then obtain row where row: "row < rows" "?sy row \<le> int py"
    "int py \<le> ?sy row + js_round (real h / real rows)" by blast
  let ?c = "regularCell_double (to_double (real w / real cols)) (to_double (real h / real rows)) row col"
  have "?c \<in> set (grid_cells (createGridForDimensions_double w h rows cols))"
    using row(1) col(1) by (rule regular_cell_double_in)
  moreover have "cell_x ?c \<le> int px \<and> int px \<le> cell_x ?c + cell_width ?c
             \<and> cell_y ?c \<le> int py \<and> int py \<le> cell_y ?c + cell_height ?c"
    using row col by (simp add: regularCell_double_def ax(1) ay(1))
  moreover have "0 < cell_width ?c" "0 < cell_height ?c"
    using regular_cell_extent_pos [OF pos(4) assms(5)] regular_cell_extent_pos [OF pos(3) assms(6)]
    by (simp_all add: regularCell_double_def ax(1) ay(1))
  ultimately show ?thesis by blast
qed

section \<open>The scorers in closed form\<close>

lemma fold_running_min:
  "fold (\<lambda>c best. case best of None \<Rightarrow> Some (f c) | Some b \<Rightarrow> Some (min b (f c)))
     xs (Some b0) = Some (Min (insert b0 (f ` set xs)))"
proof (induction xs arbitrary: b0)
  case Nil
  show ?case by simp
next
  case (Cons x xs)
  have "fold (\<lambda>c best. case best of None \<Rightarrow> Some (f c) | Some b \<Rightarrow> Some (min b (f c)))
          (x # xs) (Some b0) = Some (Min (insert (min b0 (f x)) (f ` set xs)))"
    by (simp add: Cons.IH)
  also have "Min (insert (min b0 (f x)) (f ` set xs)) = Min (insert b0 (insert (f x) (f ` set xs)))"
  proof (cases "xs = []")
    case True
    then show ?thesis by (simp add: min.commute)
  next
    case False
    then have "f ` set xs \<noteq> {}" "finite (f ` set xs)" by simp_all
    then show ?thesis by (simp add: min.assoc)
  qed
  finally show ?case by simp
qed

lemma fold_running_min_None:
  "xs \<noteq> [] \<Longrightarrow>
   fold (\<lambda>c best. case best of None \<Rightarrow> Some (f c) | Some b \<Rightarrow> Some (min b (f c)))
     xs None = Some (Min (f ` set xs))"
  by (cases xs) (simp_all add: fold_running_min)

lemma COMMON_ASPECT_RATIOS_pos: "c \<in> set COMMON_ASPECT_RATIOS \<Longrightarrow> 0 < c"
  by (auto simp: COMMON_ASPECT_RATIOS_def)

lemma symmetric_ratio:
  fixes a b :: real
  assumes "0 < a" "0 < b"
  shows "(if a > b then a / b else b / a) = max (a / b) (b / a)"
proof (cases "a > b")
  case True
  then have "b / a \<le> 1" "1 \<le> a / b" using assms by simp_all
  with True show ?thesis by simp
next
  case False
  then have "a / b \<le> 1" "1 \<le> b / a" using assms by simp_all
  with False show ?thesis by simp
qed

lemma aspectDistance_max:
  "0 < r \<Longrightarrow> 0 < c \<Longrightarrow> aspectDistance r c = max (r / c) (c / r) - 1"
  by (simp only: aspectDistance_def Let_def symmetric_ratio)

lemma aspectDistance_nonneg:
  assumes "0 < r" "0 < c"
  shows "0 \<le> aspectDistance r c"
proof -
  have "1 \<le> r / c \<or> 1 \<le> c / r" using assms by (simp add: field_simps) linarith
  then show ?thesis unfolding aspectDistance_max [OF assms] by auto
qed

lemma aspectDistance_self: "0 < c \<Longrightarrow> aspectDistance c c = 0"
  by (simp add: aspectDistance_def)

lemma exp_64th_upper: "exp (1 / 64 :: real) \<le> 4161 / 4096"
  using exp_bound [of "1 / 64 :: real"] by (simp add: power2_eq_square)

lemma exp_64th_lower: "(65 / 64 :: real) \<le> exp (1 / 64)"
  using exp_ge_add_one_self [of "1 / 64 :: real"] by simp

lemma exp_11_16_le_2: "exp (11 / 16 :: real) \<le> 2"
proof -
  have "exp (11 / 16 :: real) = exp (1 / 64) ^ 44"
    using exp_of_nat_mult [of 44 "1 / 64 :: real"] by simp
  also have "\<dots> \<le> (4161 / 4096) ^ 44"
    by (intro power_mono exp_64th_upper) simp
  also have "\<dots> \<le> 2" by (simp add: power_divide)
  finally show ?thesis .
qed

lemma exp_45_64_ge_2: "2 \<le> exp (45 / 64 :: real)"
proof -
  have "(2::real) \<le> (65 / 64) ^ 45" by (simp add: power_divide)
  also have "\<dots> \<le> exp (1 / 64) ^ 45"
    by (intro power_mono exp_64th_lower) simp
  also have "\<dots> = exp (45 / 64 :: real)"
    using exp_of_nat_mult [of 45 "1 / 64 :: real"] by simp
  finally show ?thesis .
qed

lemma exp_739: "exp (739 :: real) < 2 ^ 1075"
proof -
  have "exp (739 :: real) < exp (1075 * (11 / 16))" by simp
  also have "\<dots> = exp (11 / 16) ^ 1075"
    using exp_of_nat_mult [of 1075 "11 / 16 :: real"] by simp
  also have "\<dots> \<le> 2 ^ 1075" by (intro power_mono exp_11_16_le_2) simp
  finally show ?thesis .
qed

lemma exp_756: "2 ^ 1075 \<le> exp (756 :: real)"
proof -
  have "(2::real) ^ 1075 \<le> exp (45 / 64) ^ 1075" by (intro power_mono exp_45_64_ge_2) simp
  also have "\<dots> = exp (1075 * (45 / 64))"
    using exp_of_nat_mult [of 1075 "45 / 64 :: real"] by simp
  also have "\<dots> \<le> exp 756" by simp
  finally show ?thesis .
qed

lemma math_exp_range: "0 \<le> math_exp v \<and> math_exp v \<le> exp v"
  by (simp add: math_exp_def)

lemma math_exp_zero: "math_exp 0 = 1"
  by (simp add: math_exp_def)

lemma math_exp_exact: "- 739 \<le> v \<Longrightarrow> math_exp v = exp v"
proof -
  assume v: "- 739 \<le> v"
  have "1 / 2 ^ 1075 < 1 / exp (739 :: real)"
    using exp_739 by (intro divide_strict_left_mono) simp_all
  also have "\<dots> = exp (- 739 :: real)" by (simp add: exp_minus field_simps)
  also have "\<dots> \<le> exp v" using v by simp
  finally show ?thesis by (simp add: math_exp_def)
qed

lemma math_exp_underflow: "v \<le> - 756 \<Longrightarrow> math_exp v = 0"
proof -
  assume v: "v \<le> - 756"
  have "exp v \<le> exp (- 756 :: real)" using v by simp
  also have "\<dots> = 1 / exp (756 :: real)" by (simp add: exp_minus field_simps)
  also have "\<dots> \<le> 1 / 2 ^ 1075"
    using exp_756 by (intro divide_left_mono) simp_all
  finally show ?thesis by (simp add: math_exp_def)
qed

lemma aspectRatioScore_Min:
  "aspectRatioScore r = math_exp (- 3 * Min (aspectDistance r ` set COMMON_ASPECT_RATIOS))"
proof -
  have ne: "COMMON_ASPECT_RATIOS \<noteq> []" by (simp add: COMMON_ASPECT_RATIOS_def)
  have "aspectRatioScore r =
      (case fold (\<lambda>c best. case best of None \<Rightarrow> Some (aspectDistance r c)
                               | Some b \<Rightarrow> Some (min b (aspectDistance r c)))
              COMMON_ASPECT_RATIOS None
       of None \<Rightarrow> 0 | Some b \<Rightarrow> math_exp (- b * 3))"
    by (simp only: aspectRatioScore_def Let_def)
  also have "\<dots> = math_exp (- Min (aspectDistance r ` set COMMON_ASPECT_RATIOS) * 3)"
    by (simp only: fold_running_min_None [OF ne] option.case)
  finally show ?thesis by (simp add: mult.commute)
qed

lemma fold_push_unless:
  "fold (\<lambda>b acc. if P b then acc else acc @ [f b]) ys acc0
     = acc0 @ map f (filter (\<lambda>b. \<not> P b) ys)"
  by (induction ys arbitrary: acc0) simp_all

lemma fold_push_unless_nested:
  "fold (\<lambda>a acc. fold (\<lambda>b acc'. if P a b then acc' else acc' @ [f a b]) ys acc) xs acc0
     = acc0 @ concat (map (\<lambda>a. map (f a) (filter (\<lambda>b. \<not> P a b) ys)) xs)"
  by (induction xs arbitrary: acc0) (simp_all add: fold_push_unless)

lemma getGridCandidates_unsorted:
  "getGridCandidates w h
     = sort_key (\<lambda>c. - cand_score c) (map (\<lambda>(rows, cols). gridCandidate w h rows cols) gridPairs)"
proof -
  have "map (\<lambda>(rows, cols). gridCandidate w h rows cols) gridPairs
      = concat (map (\<lambda>rows. map (gridCandidate w h rows)
                  (filter (\<lambda>cols. \<not> (rows = 1 \<and> cols = 1)) [1..<7])) [1..<7])"
    by (simp add: gridPairs_def map_concat comp_def)
  then show ?thesis
    by (simp only: getGridCandidates_def Let_def fold_push_unless_nested append_Nil)
qed

lemma gridPairs_eval:
  "gridPairs =
     [(1,2),(1,3),(1,4),(1,5),(1,6),
      (2,1),(2,2),(2,3),(2,4),(2,5),(2,6),
      (3,1),(3,2),(3,3),(3,4),(3,5),(3,6),
      (4,1),(4,2),(4,3),(4,4),(4,5),(4,6),
      (5,1),(5,2),(5,3),(5,4),(5,5),(5,6),
      (6,1),(6,2),(6,3),(6,4),(6,5),(6,6)]"
  by code_simp

lemma length_gridPairs: "length gridPairs = 35"
  by (simp add: gridPairs_eval)

lemma distinct_gridPairs: "distinct gridPairs"
  by (simp add: gridPairs_eval)

lemma set_gridPairs: "set gridPairs = {1..6} \<times> {1..6} - {(1, 1)}"
proof -
  have "set gridPairs = {(r, c). r \<in> {1..<7} \<and> c \<in> {1..<7} \<and> \<not> (r = 1 \<and> c = 1)}"
    by (auto simp: gridPairs_def)
  also have "\<dots> = {1..6} \<times> {1..6} - {(1, 1)}" by auto
  finally show ?thesis .
qed

lemma gridCandidate_pair: "(cand_rows (gridCandidate w h r c), cand_cols (gridCandidate w h r c)) = (r, c)"
  by (simp add: gridCandidate_def Let_def)

lemma candidate_pairs:
  "map (\<lambda>c. (cand_rows c, cand_cols c)) (map (\<lambda>(rows, cols). gridCandidate w h rows cols) gridPairs)
     = gridPairs"
  by (simp add: comp_def case_prod_beta gridCandidate_pair)

lemma gridCandidate_score:
  assumes "0 < w" "0 < h" "0 < rows" "0 < cols"
  shows "cand_score (gridCandidate w h rows cols)
     = 55 / 100 * aspectRatioScore ((real w / real cols) / (real h / real rows))
     + 25 / 100 * exp (- 2 * (max ((real w / real h) / (real cols / real rows))
                                   ((real cols / real rows) / (real w / real h)) - 1))
     + 10 / 100 * (if rows * cols \<le> 6 then 1 else exp (- (15 / 100) * (real (rows * cols) - 6)))
     + 10 / 100 * (1 - \<bar>real rows - real cols\<bar> / real (max rows cols))"
proof -
  have a: "0 < real w / real h" "0 < real cols / real rows" using assms by simp_all
  show ?thesis
    unfolding gridCandidate_def Let_def symmetric_ratio [OF a]
    by (simp add: field_simps)
qed

section \<open>The geometric detector picks a candidate\<close>

lemma fold_best_Some:
  "fold (\<lambda>c best. case best of None \<Rightarrow> Some (c, g c)
                    | Some (bc, bs) \<Rightarrow> if g c > bs then Some (c, g c) else best)
     xs (Some (b0, s0)) = Some (bc, s) \<Longrightarrow> bc \<in> set xs \<or> bc = b0"
proof (induction xs arbitrary: b0 s0)
  case Nil
  then show ?case by simp
next
  case (Cons x xs)
  show ?case
  proof (cases "g x > s0")
    case True
    with Cons.prems Cons.IH [of x "g x"] show ?thesis by auto
  next
    case False
    with Cons.prems Cons.IH [of b0 s0] show ?thesis by auto
  qed
qed

lemma fold_best_None:
  assumes "xs \<noteq> []"
  shows "\<exists>bc s. fold (\<lambda>c best. case best of None \<Rightarrow> Some (c, g c)
                    | Some (bc, bs) \<Rightarrow> if g c > bs then Some (c, g c) else best)
     xs None = Some (bc, s) \<and> bc \<in> set xs"
proof -
  from assms obtain x ys where xs: "xs = x # ys" by (cases xs) auto
  let ?f = "\<lambda>c best. case best of None \<Rightarrow> Some (c, g c)
                    | Some (bc, bs) \<Rightarrow> if g c > bs then Some (c, g c) else best"
  have some: "\<exists>bc s. fold ?f zs (Some (b0, s0)) = Some (bc, s)" for zs b0 s0
    by (induction zs arbitrary: b0 s0) auto
  then obtain bc s where r: "fold ?f ys (Some (x, g x)) = Some (bc, s)" by blast
  then have "bc \<in> set ys \<or> bc = x" by (rule fold_best_Some)
  with r show ?thesis by (auto simp: xs)
qed

lemma analyzeGrid_picks_candidate:
  "\<exists>best s. best \<in> set (getGridCandidates (img_width imageData) (img_height imageData))
     \<and> analyzeGridFromImageData imageData
         = Inr ((createGridForDimensions (img_width imageData) (img_height imageData)
                   (cand_rows best) (cand_cols best))\<lparr>grid_confidence := s\<rparr>)"
proof -
  let ?cands = "getGridCandidates (img_width imageData) (img_height imageData)"
  let ?g = "\<lambda>candidate. cand_score candidate * (8 / 10)
       + scoreGridByEdges (cand_rows candidate) (cand_cols candidate)
           (img_width imageData) (img_height imageData)
           (calculateVerticalEdgeProfile (img_data imageData) (img_width imageData) (img_height imageData))
           (calculateHorizontalEdgeProfile (img_data imageData) (img_width imageData) (img_height imageData))
         * (2 / 10)"
  have "length ?cands = 35"
    by (simp add: getGridCandidates_unsorted length_gridPairs)
  then have "take 8 ?cands \<noteq> []" by auto
  from fold_best_None [OF this, of ?g] obtain bc s
    where r: "fold (\<lambda>c best. case best of None \<Rightarrow> Some (c, ?g c)
                    | Some (bc, bs) \<Rightarrow> if ?g c > bs then Some (c, ?g c) else best)
               (take 8 ?cands) None = Some (bc, s)" and "bc \<in> set (take 8 ?cands)"
    by blast
  then have "bc \<in> set ?cands" by (meson in_set_takeD)
  moreover have "analyzeGridFromImageData imageData
         = Inr ((createGridForDimensions (img_width imageData) (img_height imageData)
                   (cand_rows bc) (cand_cols bc))\<lparr>grid_confidence := s\<rparr>)"
    by (simp only: analyzeGridFromImageData_def Let_def r option.case prod.case)
  ultimately show ?thesis by blast
qed

lemma candidate_range:
  assumes "c \<in> set (getGridCandidates w h)"
  shows "1 \<le> cand_rows c \<and> cand_rows c \<le> 6 \<and> 1 \<le> cand_cols c \<and> cand_cols c \<le> 6"
proof -
  from assms have "c \<in> set (map (\<lambda>(rows, cols). gridCandidate w h rows cols) gridPairs)"
    by (simp add: getGridCandidates_unsorted)
  then obtain r k where rk: "(r, k) \<in> set gridPairs" "c = gridCandidate w h r k" by auto
  from rk(1) have "1 \<le> r \<and> r \<le> 6 \<and> 1 \<le> k \<and> k \<le> 6" by (auto simp: set_gridPairs)
  moreover have "cand_rows c = r" "cand_cols c = k"
    using gridCandidate_pair [of w h r k] rk(2) by simp_all
  ultimately show ?thesis by simp
qed

lemma detectGrid_Decoded:
  "\<exists>rows cols s. 1 \<le> rows \<and> rows \<le> 6 \<and> 1 \<le> cols \<and> cols \<le> 6
     \<and> detectGrid (Decoded imageData)
         = Inr ((createGridForDimensions (img_width imageData) (img_height imageData) rows cols)
                  \<lparr>grid_confidence := s\<rparr>)"
proof -
  from analyzeGrid_picks_candidate [of imageData] obtain best s
    where b: "best \<in> set (getGridCandidates (img_width imageData) (img_height imageData))"
      "analyzeGridFromImageData imageData
         = Inr ((createGridForDimensions (img_width imageData) (img_height imageData)
                   (cand_rows best) (cand_cols best))\<lparr>grid_confidence := s\<rparr>)"
    by blast
  from candidate_range [OF b(1)] b(2) show ?thesis
    by (auto simp: detectGrid_def)
qed

lemma splitImage_Decoded:
  "splitImage crop (Decoded imageData) grid = Inr (map (crop imageData) (grid_cells grid))"
  by (simp add: splitImage_def fold_push)

lemma edgeExample_vertical:
  "calculateVerticalEdgeProfile (img_data edgeExample) 10 5 = [0, 27, 0, 0, 0, 0, 0, 0, 0, 0]"
  by code_simp

lemma edgeExample_horizontal:
  "calculateHorizontalEdgeProfile (img_data edgeExample) 10 5 = [0, 0, 0, 0, 0]"
  by code_simp

section \<open>Range of the edge score\<close>

text \<open>
  The edge score is 0 for the single cell and never above 1, but its lower bound is
  -1/2, not 0: the ratios are capped at 3 and bounded below by 0 only.
\<close>

lemma scoreGridByEdges_single_cell: "scoreGridByEdges 1 1 w h verticalProfile horizontalProfile = 0"
  by (simp add: scoreGridByEdges_def)

lemma window_max_nonneg:
  "0 \<le> m \<Longrightarrow>
   0 \<le> fold (\<lambda>offset m. let pos = expectedPos + offset
                        in if pos > 0 \<and> pos < int len - 1 then max m (profile ! nat pos) else m)
         offsets (m :: real)"
  by (induction offsets arbitrary: m) (simp_all add: Let_def max.coboundedI1)

lemma divisionRatio_range:
  "0 \<le> divisionRatio profile baseline len searchWindow cellSize i
   \<and> divisionRatio profile baseline len searchWindow cellSize i \<le> 3"
proof -
  have "0 \<le> fold (\<lambda>offset m. let pos = js_round (cellSize * real i) + offset
                        in if pos > 0 \<and> pos < int len - 1 then max m (profile ! nat pos) else m)
         [- searchWindow..searchWindow] (0 :: real)"
    by (rule window_max_nonneg) simp
  then show ?thesis
    by (simp add: divisionRatio_def Let_def)
qed

lemma fold_ratios:
  assumes "\<And>i. 0 \<le> r i \<and> r i \<le> (3::real)"
  shows "fold (\<lambda>i (t, d). (t + r i, d + 1)) xs (t0, d0) = (t, d)
     \<Longrightarrow> 0 \<le> t0 \<Longrightarrow> t0 \<le> 3 * real d0 \<Longrightarrow> 0 \<le> t \<and> t \<le> 3 * real (d :: nat)"
proof (induction xs arbitrary: t0 d0)
  case Nil
  then show ?case by simp
next
  case (Cons x xs)
  from Cons.prems(1) have "fold (\<lambda>i (t, d). (t + r i, d + 1)) xs (t0 + r x, d0 + 1) = (t, d)"
    by simp
  moreover have "0 \<le> t0 + r x" "t0 + r x \<le> 3 * real (d0 + 1)"
    using Cons.prems(2,3) assms [of x] by simp_all
  ultimately show ?case by (rule Cons.IH)
qed

lemma scoreGridByEdges_range:
  "- (1 / 2) \<le> scoreGridByEdges rows cols w h verticalProfile horizontalProfile
   \<and> scoreGridByEdges rows cols w h verticalProfile horizontalProfile \<le> 1"
proof -
  define sw where "sw = max 3 \<lfloor>min (real w / real cols) (real h / real rows) * (3 / 100)\<rfloor>"
  define rv where "rv = divisionRatio verticalProfile (profileBaseline verticalProfile) w sw (real w / real cols)"
  define rh where "rh = divisionRatio horizontalProfile (profileBaseline horizontalProfile) h sw (real h / real rows)"
  obtain t1 d1 where v: "(if cols > 1 then fold (\<lambda>i (t, d). (t + rv i, d + 1)) [1..<cols] (0, 0 :: nat)
                          else (0, 0)) = (t1, d1)"
    by (metis surj_pair)
  obtain t2 d2 where hz: "(if rows > 1 then fold (\<lambda>i (t, d). (t + rh i, d + 1)) [1..<rows] (t1, d1)
                          else (t1, d1)) = (t2, d2)"
    by (metis surj_pair)
  have b1: "0 \<le> t1 \<and> t1 \<le> 3 * real d1"
  proof (cases "cols > 1")
    case True
    with v have "fold (\<lambda>i (t, d). (t + rv i, d + 1)) [1..<cols] (0, 0) = (t1, d1)" by simp
    then show ?thesis
      by (rule fold_ratios [rotated]) (simp_all add: rv_def divisionRatio_range)
  next
    case False
    with v show ?thesis by simp
  qed
  have b2: "0 \<le> t2 \<and> t2 \<le> 3 * real d2"
  proof (cases "rows > 1")
    case True
    with hz have "fold (\<lambda>i (t, d). (t + rh i, d + 1)) [1..<rows] (t1, d1) = (t2, d2)" by simp
    moreover have "0 \<le> t1" "t1 \<le> 3 * real d1" using b1 by simp_all
    moreover have "\<And>i. 0 \<le> rh i \<and> rh i \<le> 3" by (simp add: rh_def divisionRatio_range)
    ultimately show ?thesis by (rule fold_ratios [rotated])
  next
    case False
    with hz b1 show ?thesis by simp
  qed
  have eq: "scoreGridByEdges rows cols w h verticalProfile horizontalProfile
      = (if d2 = 0 then 0 else min ((t2 / real d2 - 1) / 2) 1)"
    unfolding scoreGridByEdges_def Let_def sw_def [symmetric] rv_def [symmetric] rh_def [symmetric]
    by (simp only: v hz prod.case)
  show ?thesis
  proof (cases "d2 = 0")
    case True
    then show ?thesis by (simp add: eq)
  next
    case False
    then have "0 \<le> t2 / real d2" using b2 by simp
    then show ?thesis using False by (simp add: eq)
  qed
qed

section \<open>Claims about the regular partition\<close>

text \<open>
  The cells of the exact reading, for reference.
\<close>

lemma createGridForDimensions_exact_nth:
  assumes "row < rows" and "col < cols"
  shows "grid_cells (createGridForDimensions w h rows cols) ! (row * cols + col)
           = regularCell (real w / real cols) (real h / real rows) row col"
  using assms by (simp add: createGrid_cells nth_concat_uniform)

text \<open>
  C8, amended. For all w, h, rows, cols at least 1 (with \<open>w cols\<close> and \<open>h rows\<close> up to
  \<open>2^50\<close>), the function as the program runs it has confidence 1 and exactly rows * cols
  cells in row-major order; the cell at index row * cols + col has
  \<open>x = Math.round(col * cellWidth)\<close> and \<open>y = Math.round(row * cellHeight)\<close> for the double
  quotients \<open>cellWidth = w / cols\<close>, \<open>cellHeight = h / rows\<close> and the double products,
  \<open>width = round(w / cols)\<close> and \<open>height = round(h / rows)\<close>. Its \<open>x\<close> is \<open>round(col w / cols)\<close>
  unless \<open>col w / cols\<close> is a tie \<open>k + 1/2\<close>: there the double product can fall below the
  tie, and \<open>x\<close> is \<open>k\<close> or \<open>k + 1\<close>; likewise \<open>y\<close>. For w = 15, cols = 22, col = 11 the
  product is 7.499999999999999 and \<open>x\<close> is 7, not \<open>round(7.5) = 8\<close>.
\<close>

theorem createGridForDimensions_row_major:
  assumes "1 \<le> w" and "1 \<le> h" and "1 \<le> rows" and "1 \<le> cols"
      and "w * cols \<le> 2 ^ 50" and "h * rows \<le> 2 ^ 50"
  shows "grid_confidence (createGridForDimensions_double w h rows cols) = 1
       \<and> length (grid_cells (createGridForDimensions_double w h rows cols)) = rows * cols
       \<and> (\<forall>row col. row < rows \<and> col < cols \<longrightarrow>
            grid_cells (createGridForDimensions_double w h rows cols) ! (row * cols + col)
              = \<lparr>cell_x = js_round (to_double (real col * to_double (real w / real cols))),
                 cell_y = js_round (to_double (real row * to_double (real h / real rows))),
                 cell_width = js_round (real w / real cols),
                 cell_height = js_round (real h / real rows)\<rparr>
          \<and> (js_round (to_double (real col * to_double (real w / real cols)))
                 = js_round (real col * real w / real cols)
             \<or> js_round (to_double (real col * to_double (real w / real cols)))
                   = js_round (real col * real w / real cols) - 1
               \<and> frac (real col * real w / real cols) = 1 / 2)
          \<and> (js_round (to_double (real row * to_double (real h / real rows)))
                 = js_round (real row * real h / real rows)
             \<or> js_round (to_double (real row * to_double (real h / real rows)))
                   = js_round (real row * real h / real rows) - 1
               \<and> frac (real row * real h / real rows) = 1 / 2))"
proof -
  have pos: "0 < w" "0 < h" "0 < rows" "0 < cols" using assms(1-4) by simp_all
  have "grid_confidence (createGridForDimensions_double w h rows cols) = 1"
    by (simp add: createGridForDimensions_double_def Let_def)
  moreover have "length (grid_cells (createGridForDimensions_double w h rows cols)) = rows * cols"
    by (simp only: createGrid_double_cells length_concat_uniform)
  moreover have "grid_cells (createGridForDimensions_double w h rows cols) ! (row * cols + col)
              = \<lparr>cell_x = js_round (to_double (real col * to_double (real w / real cols))),
                 cell_y = js_round (to_double (real row * to_double (real h / real rows))),
                 cell_width = js_round (real w / real cols),
                 cell_height = js_round (real h / real rows)\<rparr>"
    if "row < rows" "col < cols" for row col
    using that double_extent(2) [OF pos(4) pos(1) assms(5)] double_extent(2) [OF pos(3) pos(2) assms(6)]
    by (simp add: createGrid_double_nth regularCell_double_def)
  moreover have "js_round (to_double (real col * to_double (real w / real cols)))
                 = js_round (real col * real w / real cols)
             \<or> js_round (to_double (real col * to_double (real w / real cols)))
                   = js_round (real col * real w / real cols) - 1
               \<and> frac (real col * real w / real cols) = 1 / 2"
    if "col < cols" for col
    using double_start [OF pos(4) that pos(1) assms(5)] by simp
  moreover have "js_round (to_double (real row * to_double (real h / real rows)))
                 = js_round (real row * real h / real rows)
             \<or> js_round (to_double (real row * to_double (real h / real rows)))
                   = js_round (real row * real h / real rows) - 1
               \<and> frac (real row * real h / real rows) = 1 / 2"
    if "row < rows" for row
    using double_start [OF pos(3) that pos(2) assms(6)] by simp
  ultimately show ?thesis by blast
qed

theorem createGridForDimensions_row_major_witness:
  "grid_confidence (createGridForDimensions_double 15 1 1 22) = 1
   \<and> length (grid_cells (createGridForDimensions_double 15 1 1 22)) = 22
   \<and> cell_width (grid_cells (createGridForDimensions_double 15 1 1 22) ! 11) = 1
   \<and> frac (11 * 15 / 22 :: real) = 1 / 2"
proof -
  have h: "1 \<le> (15::nat)" "1 \<le> (1::nat)" "1 \<le> (22::nat)"
    "15 * 22 \<le> (2::nat) ^ 50" "1 * 1 \<le> (2::nat) ^ 50" by simp_all
  note t = createGridForDimensions_row_major [OF h(1) h(2) h(2) h(3) h(4) h(5)]
  from t have a: "grid_confidence (createGridForDimensions_double 15 1 1 22) = 1"
    and b: "length (grid_cells (createGridForDimensions_double 15 1 1 22)) = 1 * 22"
    by blast+
  from t have c: "grid_cells (createGridForDimensions_double 15 1 1 22) ! (0 * 22 + 11)
              = \<lparr>cell_x = js_round (to_double (real 11 * to_double (real 15 / real 22))),
                 cell_y = js_round (to_double (real 0 * to_double (real 1 / real 1))),
                 cell_width = js_round (real 15 / real 22),
                 cell_height = js_round (real 1 / real 1)\<rparr>"
    by (elim conjE allE [of _ 0] allE [of _ 11]) simp
  have w1: "js_round (15 / 22) = 1" by (simp add: js_round_def)
  have tie: "frac (11 * 15 / 22 :: real) = 1 / 2"
    using frac_unique_iff [of "11 * 15 / 22 :: real" "1 / 2"] by simp
  from a b c w1 tie show ?thesis by simp
qed

theorem createGridForDimensions_row_major_counterexample:
  "cell_x (grid_cells (createGridForDimensions_double 15 1 1 22) ! 11) = 7
   \<and> js_round (real 11 * real 15 / real 22) = 8"
  by (simp del: One_nat_def add: createGrid_double_15_22 js_round_def)

text \<open>
  C9, amended. For all w, h, rows, cols at least 1 with \<open>cols \<le> 2 w\<close> and \<open>rows \<le> 2 h\<close>,
  the cells of \<open>createGridForDimensions\<close> cover the rectangle [0,w) x [0,h) up to one
  pixel of rounding: every pixel position lies, along each axis, within the range of
  some cell that is not empty or on the one position right after it. For all w, h,
  rows, cols at least 1 no cell extends more than one pixel past the image edge. With
  \<open>cols > 2 w\<close> every cell has width 0, with \<open>rows > 2 h\<close> height 0: the cells are empty
  and cover no pixel. The cells as the doubles give them cover the rectangle in the
  same way (\<open>covers_double\<close>).
\<close>

theorem createGridForDimensions_covers:
  "(1 \<le> w \<and> 1 \<le> h \<and> 1 \<le> rows \<and> 1 \<le> cols \<and> cols \<le> 2 * w \<and> rows \<le> 2 * h \<longrightarrow>
      (\<forall>px py. px < w \<and> py < h \<longrightarrow>
         (\<exists>c\<in>set (grid_cells (createGridForDimensions w h rows cols)).
            0 < cell_width c \<and> 0 < cell_height c
          \<and> cell_x c \<le> int px \<and> int px \<le> cell_x c + cell_width c
          \<and> cell_y c \<le> int py \<and> int py \<le> cell_y c + cell_height c)))
   \<and> (1 \<le> w \<and> 1 \<le> h \<and> 1 \<le> rows \<and> 1 \<le> cols \<longrightarrow>
      (\<forall>c\<in>set (grid_cells (createGridForDimensions w h rows cols)).
         0 \<le> cell_x c \<and> 0 \<le> cell_y c
       \<and> cell_x c + cell_width c \<le> int w + 1 \<and> cell_y c + cell_height c \<le> int h + 1
       \<and> (2 * w < cols \<longrightarrow> cell_width c = 0) \<and> (2 * h < rows \<longrightarrow> cell_height c = 0)))"
proof (intro conjI impI allI ballI)
  fix px py
  assume d: "1 \<le> w \<and> 1 \<le> h \<and> 1 \<le> rows \<and> 1 \<le> cols \<and> cols \<le> 2 * w \<and> rows \<le> 2 * h"
    and p: "px < w \<and> py < h"
  from d have pos: "0 < rows" "0 < cols" by simp_all
  from pos(2) p obtain col where col: "col < cols"
      "js_round (real col * (real w / real cols)) \<le> int px"
      "int px \<le> js_round (real col * (real w / real cols)) + js_round (real w / real cols)"
    using axis_cover [of cols px w] by auto
  from pos(1) p obtain row where row: "row < rows"
      "js_round (real row * (real h / real rows)) \<le> int py"
      "int py \<le> js_round (real row * (real h / real rows)) + js_round (real h / real rows)"
    using axis_cover [of rows py h] by auto
  let ?c = "regularCell (real w / real cols) (real h / real rows) row col"
  have "?c \<in> set (grid_cells (createGridForDimensions w h rows cols))"
    using row(1) col(1) by (rule regular_cell_in)
  moreover have "cell_x ?c \<le> int px \<and> int px \<le> cell_x ?c + cell_width ?c
             \<and> cell_y ?c \<le> int py \<and> int py \<le> cell_y ?c + cell_height ?c"
    using row col by (simp add: regularCell_def)
  moreover have "0 < cell_width ?c" "0 < cell_height ?c"
    using regular_cell_extent_pos [OF pos(2), of w] regular_cell_extent_pos [OF pos(1), of h] d
    by (simp_all add: regularCell_def)
  ultimately show "\<exists>c\<in>set (grid_cells (createGridForDimensions w h rows cols)).
            0 < cell_width c \<and> 0 < cell_height c
          \<and> cell_x c \<le> int px \<and> int px \<le> cell_x c + cell_width c
          \<and> cell_y c \<le> int py \<and> int py \<le> cell_y c + cell_height c"
    by blast
next
  fix c
  assume d: "1 \<le> w \<and> 1 \<le> h \<and> 1 \<le> rows \<and> 1 \<le> cols"
    and c: "c \<in> set (grid_cells (createGridForDimensions w h rows cols))"
  from d have pos: "0 < rows" "0 < cols" by simp_all
  note b = regular_cell_bounds [OF pos c]
  from b show "0 \<le> cell_x c" by simp
  from b show "0 \<le> cell_y c" by simp
  from b show "cell_x c + cell_width c \<le> int w + 1" by simp
  from b show "cell_y c + cell_height c \<le> int h + 1" by simp
  from c obtain row col where
    rc: "c = regularCell (real w / real cols) (real h / real rows) row col"
    by (rule regular_cell_mem)
  show "cell_width c = 0" if "2 * w < cols"
    using regular_cell_extent_zero [OF that] by (simp add: rc regularCell_def)
  show "cell_height c = 0" if "2 * h < rows"
    using regular_cell_extent_zero [OF that] by (simp add: rc regularCell_def)
qed

theorem createGridForDimensions_covers_witness:
  "(\<exists>c\<in>set (grid_cells (createGridForDimensions 3 3 1 2)).
       0 < cell_width c \<and> 0 < cell_height c
     \<and> cell_x c \<le> 2 \<and> 2 \<le> cell_x c + cell_width c \<and> cell_y c \<le> 2 \<and> 2 \<le> cell_y c + cell_height c)
   \<and> cell_x (last (grid_cells (createGridForDimensions 3 3 1 2)))
       + cell_width (last (grid_cells (createGridForDimensions 3 3 1 2))) = 3 + 1
   \<and> cell_width (hd (grid_cells (createGridForDimensions 1 1 1 3))) = 0"
proof -
  note t = createGridForDimensions_covers [of 3 3 1 2]
  have a: "\<forall>px py. px < 3 \<and> py < 3 \<longrightarrow>
      (\<exists>c\<in>set (grid_cells (createGridForDimensions 3 3 1 2)).
         0 < cell_width c \<and> 0 < cell_height c
       \<and> cell_x c \<le> int px \<and> int px \<le> cell_x c + cell_width c
       \<and> cell_y c \<le> int py \<and> int py \<le> cell_y c + cell_height c)"
    using t by (simp del: One_nat_def)
  have "\<exists>c\<in>set (grid_cells (createGridForDimensions 3 3 1 2)).
       0 < cell_width c \<and> 0 < cell_height c
     \<and> cell_x c \<le> 2 \<and> 2 \<le> cell_x c + cell_width c \<and> cell_y c \<le> 2 \<and> 2 \<le> cell_y c + cell_height c"
    using a [rule_format, of 2 2] by (simp del: One_nat_def)
  moreover have "hd (grid_cells (createGridForDimensions 1 1 1 3))
      \<in> set (grid_cells (createGridForDimensions 1 1 1 3))"
    by (simp del: One_nat_def add: createGrid_1_1_1_3)
  then have "cell_width (hd (grid_cells (createGridForDimensions 1 1 1 3))) = 0"
    using createGridForDimensions_covers [of 1 1 1 3] by (simp del: One_nat_def)
  ultimately show ?thesis by (simp del: One_nat_def add: createGrid_3_3_1_2)
qed

theorem createGridForDimensions_covers_counterexample:
  "map cell_width (grid_cells (createGridForDimensions 1 1 1 3)) = [0, 0, 0]
   \<and> map cell_width (grid_cells (createGridForDimensions 10 1 1 21)) = replicate 21 0"
  by (simp del: One_nat_def add: createGrid_1_1_1_3 createGrid_10_1_1_21)

section \<open>Claims about the gutter detector\<close>

text \<open>
  C3. Given a decoded pixel buffer, the gutter detector returns none if and only if at
  least one axis has no retained content interval, where column \<open>x\<close> is a gap exactly
  when \<open>colSums[x] / height < 30\<close> (rows: \<open>rowSums[y] / width < 30\<close>), the content intervals
  are the maximal runs of non-gap positions, and an interval is retained exactly when
  its size exceeds 5% of the length of its axis.
\<close>

theorem detectGridWithGutters_none_iff:
  assumes "0 < img_width imageData" and "0 < img_height imageData"
  shows "detectGridWithGutters (Decoded imageData) = None \<longleftrightarrow>
     \<not> (\<exists>s e. contentRun (\<lambda>x. fst (projectionProfiles imageData) ! x
                                   / real (img_height imageData) < 30)
                  (img_width imageData) s e
              \<and> real (img_width imageData) * (5 / 100) < real (e - s + 1))
   \<or> \<not> (\<exists>s e. contentRun (\<lambda>y. snd (projectionProfiles imageData) ! y
                                   / real (img_width imageData) < 30)
                  (img_height imageData) s e
              \<and> real (img_height imageData) * (5 / 100) < real (e - s + 1))"
proof -
  have col: "isColumnGap (fst (projectionProfiles imageData)) (img_height imageData)
      = (\<lambda>x. fst (projectionProfiles imageData) ! x / real (img_height imageData) < 30)"
    by (simp add: isColumnGap_def fun_eq_iff)
  have row: "isRowGap (snd (projectionProfiles imageData)) (img_width imageData)
      = (\<lambda>y. snd (projectionProfiles imageData) ! y / real (img_width imageData) < 30)"
    by (simp add: isRowGap_def fun_eq_iff)
  have "detectGridWithGutters (Decoded imageData) = None \<longleftrightarrow>
      colIntervalsOf imageData = [] \<or> rowIntervalsOf imageData = []"
    unfolding detectGridWithGutters_Decoded gutterGrid_None by blast
  then show ?thesis
    unfolding colIntervalsOf_def rowIntervalsOf_def findIntervals_empty_iff col row .
qed

theorem detectGridWithGutters_none_iff_witness:
  "detectGridWithGutters (Decoded gutterExample) \<noteq> None
   \<and> (\<exists>s e. contentRun (\<lambda>x. fst (projectionProfiles gutterExample) ! x
                                   / real (img_height gutterExample) < 30)
                  (img_width gutterExample) s e
              \<and> real (img_width gutterExample) * (5 / 100) < real (e - s + 1))
   \<and> (\<exists>s e. contentRun (\<lambda>y. snd (projectionProfiles gutterExample) ! y
                                   / real (img_width gutterExample) < 30)
                  (img_height gutterExample) s e
              \<and> real (img_height gutterExample) * (5 / 100) < real (e - s + 1))"
proof -
  have dims: "0 < img_width gutterExample" "0 < img_height gutterExample"
    by (simp_all add: gutterExample_def)
  have "detectGridWithGutters (Decoded gutterExample) \<noteq> None"
    by (simp add: gutterExample_detected)
  with detectGridWithGutters_none_iff [OF dims] show ?thesis by blast
qed

text \<open>
  C4. When the gutter detector succeeds, its cells are the row-major cross product of
  the row intervals by the column intervals, filtered to the cells whose area strictly
  exceeds 0.5 times the median area, the element at index \<open>floor(n / 2)\<close> of the sorted
  list of all \<open>n\<close> areas; \<open>rows\<close> and \<open>cols\<close> are the interval counts before the filter,
  and the confidence is 0.95.
\<close>

theorem detectGridWithGutters_cells:
  assumes "detectGridWithGutters (Decoded imageData) = Some g"
  shows "(let raw = crossProduct (rowIntervalsOf imageData) (colIntervalsOf imageData);
              n = length raw;
              median = sort (map (\<lambda>c. cell_width c * cell_height c) raw) ! (n div 2)
          in n div 2 < n
           \<and> grid_cells g = filter (\<lambda>c. real_of_int (cell_width c * cell_height c)
                                        > (5 / 10) * real_of_int median) raw
           \<and> grid_rows g = length (rowIntervalsOf imageData)
           \<and> grid_cols g = length (colIntervalsOf imageData)
           \<and> grid_confidence g = 95 / 100)"
proof -
  note d = gutter_Some_D [OF assms]
  have "0 < length (crossProduct (rowIntervalsOf imageData) (colIntervalsOf imageData))"
    using d(1,2) by (simp add: length_crossProduct)
  then have "length (crossProduct (rowIntervalsOf imageData) (colIntervalsOf imageData)) div 2
      < length (crossProduct (rowIntervalsOf imageData) (colIntervalsOf imageData))"
    by simp
  then show ?thesis
    by (simp add: d(3) Let_def medianArea_def mult.commute)
qed

theorem detectGridWithGutters_cells_witness:
  "grid_cells (the (detectGridWithGutters (Decoded gutterExample)))
     = [\<lparr>cell_x = 0, cell_y = 0, cell_width = 1, cell_height = 2\<rparr>,
        \<lparr>cell_x = 2, cell_y = 0, cell_width = 1, cell_height = 2\<rparr>]
   \<and> grid_rows (the (detectGridWithGutters (Decoded gutterExample)))
       = length (rowIntervalsOf gutterExample)
   \<and> grid_cols (the (detectGridWithGutters (Decoded gutterExample)))
       = length (colIntervalsOf gutterExample)"
  using detectGridWithGutters_cells [OF gutterExample_detected]
  by (simp add: gutterExample_detected Let_def)

text \<open>
  C10. Whenever the gutter detector succeeds, its cells are not empty: the median area
  is positive, every raw cell whose area is at least the median passes the filter, the
  cell of median area survives, and at least half of the raw cells are kept.
\<close>

theorem gutter_survivors:
  assumes "detectGridWithGutters (Decoded imageData) = Some g"
  shows "(let raw = crossProduct (rowIntervalsOf imageData) (colIntervalsOf imageData);
              median = medianArea raw
          in grid_cells g \<noteq> []
           \<and> 0 < median
           \<and> (\<forall>c\<in>set raw. median \<le> cell_width c * cell_height c \<longrightarrow> c \<in> set (grid_cells g))
           \<and> (\<exists>c\<in>set (grid_cells g). cell_width c * cell_height c = median)
           \<and> length raw \<le> 2 * length (grid_cells g))"
proof -
  define raw where "raw = crossProduct (rowIntervalsOf imageData) (colIntervalsOf imageData)"
  define area where "area = (\<lambda>c :: GridCell. cell_width c * cell_height c)"
  define m where "m = medianArea raw"
  note d = gutter_Some_D [OF assms]
  have cells: "grid_cells g = filter (\<lambda>c. real_of_int (area c) > real_of_int m * (5 / 10)) raw"
    by (simp add: d(3) raw_def area_def m_def)
  have ne: "map area raw \<noteq> []"
    using d(1,2) length_crossProduct [of "rowIntervalsOf imageData" "colIntervalsOf imageData"]
    by (auto simp: raw_def)
  have m_eq: "m = sort (map area raw) ! (length (map area raw) div 2)"
    by (simp add: m_def medianArea_def area_def)
  have pos: "0 < area c" if "c \<in> set raw" for c
    using crossProduct_positive [of c] that
    by (simp add: raw_def rowIntervalsOf_def colIntervalsOf_def area_def)
  have "m \<in> set (map area raw)" unfolding m_eq using ne by (rule median_mem)
  then obtain c0 where c0: "c0 \<in> set raw" "area c0 = m" by auto
  with pos have mpos: "0 < m" by auto
  have keep: "c \<in> set (grid_cells g)" if "c \<in> set raw" "m \<le> area c" for c
  proof -
    have "real_of_int m * (5 / 10) < real_of_int m" using mpos by simp
    also have "\<dots> \<le> real_of_int (area c)" using that(2) by simp
    finally show ?thesis using that(1) by (simp add: cells)
  qed
  have "length raw \<le> 2 * length (filter (\<lambda>a. m \<le> a) (map area raw))"
    using count_at_least_median [OF ne] by (simp add: m_eq)
  also have "length (filter (\<lambda>a. m \<le> a) (map area raw)) = length (filter (\<lambda>c. m \<le> area c) raw)"
    by (simp add: filter_map comp_def)
  also have "\<dots> \<le> length (grid_cells g)"
    unfolding cells
  proof (rule filter_length_mono)
    fix c assume "c \<in> set raw" "m \<le> area c"
    then have "c \<in> set (grid_cells g)" by (rule keep)
    then show "real_of_int m * (5 / 10) < real_of_int (area c)" by (simp add: cells)
  qed
  finally have half: "length raw \<le> 2 * length (grid_cells g)" by simp
  have c0_in: "c0 \<in> set (grid_cells g)" using keep [OF c0(1)] c0(2) by simp
  then have "grid_cells g \<noteq> []" by auto
  moreover have "\<exists>c\<in>set (grid_cells g). area c = m" using c0_in c0(2) by blast
  ultimately show ?thesis
    using mpos keep half
    unfolding Let_def raw_def [symmetric] m_def [symmetric] area_def by blast
qed

theorem gutter_survivors_witness:
  "grid_cells (the (detectGridWithGutters (Decoded gutterExample))) \<noteq> []
   \<and> 0 < medianArea (crossProduct (rowIntervalsOf gutterExample) (colIntervalsOf gutterExample))
   \<and> length (crossProduct (rowIntervalsOf gutterExample) (colIntervalsOf gutterExample))
       \<le> 2 * length (grid_cells (the (detectGridWithGutters (Decoded gutterExample))))"
  using gutter_survivors [OF gutterExample_detected]
  by (simp add: gutterExample_detected Let_def)

section \<open>Claims about the scorers\<close>

text \<open>
  C7, amended. For every ratio above 0, \<open>aspectRatioScore\<close> returns \<open>Math.exp(-3 d)\<close>
  where \<open>d\<close> is the minimum of \<open>max(ratio / c, c / ratio) - 1\<close> over the list 16:9, 4:3,
  3:2, 1.85, 2.39, 1:1, 9:16, 3:4, 2:3 of the source. The result lies in [0, 1], 0
  included: it is \<open>e^(-3 d)\<close> while \<open>3 d \<le> 739\<close> and exactly 0 from \<open>3 d \<ge> 756\<close> on, since
  \<open>Math.exp\<close> underflows (near 745.13). It is 1 for every ratio of the list. The
  reciprocals of 1.85 and 2.39 are not in the list, so a ratio such as 1 / 1.85 does not
  score 1, and a ratio far from every entry, such as 1000, scores 0.
\<close>

theorem aspectRatioScore_closed_form:
  assumes "0 < ratio"
  shows "(let d = Min ((\<lambda>c. max (ratio / c) (c / ratio) - 1) ` set COMMON_ASPECT_RATIOS)
          in 0 \<le> aspectRatioScore ratio \<and> aspectRatioScore ratio \<le> 1
           \<and> (3 * d \<le> 739 \<longrightarrow> aspectRatioScore ratio = exp (- 3 * d))
           \<and> (756 \<le> 3 * d \<longrightarrow> aspectRatioScore ratio = 0)
           \<and> (ratio \<in> set COMMON_ASPECT_RATIOS \<longrightarrow> aspectRatioScore ratio = 1))"
proof -
  let ?D = "aspectDistance ratio ` set COMMON_ASPECT_RATIOS"
  have fin: "finite ?D" "?D \<noteq> {}" by (simp_all add: COMMON_ASPECT_RATIOS_def)
  have img: "(\<lambda>c. max (ratio / c) (c / ratio) - 1) ` set COMMON_ASPECT_RATIOS = ?D"
    by (rule image_cong) (simp_all add: aspectDistance_max assms COMMON_ASPECT_RATIOS_pos)
  have nonneg: "0 \<le> Min ?D"
    using fin by (auto simp: aspectDistance_nonneg assms COMMON_ASPECT_RATIOS_pos)
  have one: "aspectRatioScore ratio = 1" if "ratio \<in> set COMMON_ASPECT_RATIOS"
  proof -
    have "aspectDistance ratio ratio \<in> ?D" using that by (rule imageI)
    then have "0 \<in> ?D" by (simp add: aspectDistance_self assms)
    with fin(1) have "Min ?D \<le> 0" by (rule Min_le)
    with nonneg have "Min ?D = 0" by simp
    then show ?thesis by (simp add: aspectRatioScore_Min math_exp_zero)
  qed
  have "math_exp (- 3 * Min ?D) \<le> exp (- 3 * Min ?D)" by (simp add: math_exp_range)
  also have "\<dots> \<le> 1" using nonneg by simp
  finally have le: "aspectRatioScore ratio \<le> 1" by (simp add: aspectRatioScore_Min)
  have ge: "0 \<le> aspectRatioScore ratio" by (simp add: aspectRatioScore_Min math_exp_range)
  have val: "aspectRatioScore ratio = exp (- 3 * Min ?D)" if "3 * Min ?D \<le> 739"
    unfolding aspectRatioScore_Min using that by (intro math_exp_exact) simp
  have zero: "aspectRatioScore ratio = 0" if "756 \<le> 3 * Min ?D"
    unfolding aspectRatioScore_Min using that by (intro math_exp_underflow) simp
  from ge le val zero one show ?thesis unfolding img Let_def by blast
qed

theorem aspectRatioScore_closed_form_witness:
  "aspectRatioScore (16 / 9) = 1 \<and> 0 \<le> aspectRatioScore (16 / 9)"
proof -
  have mem: "(16 / 9 :: real) \<in> set COMMON_ASPECT_RATIOS"
    by (simp add: COMMON_ASPECT_RATIOS_def)
  have pos: "0 < (16 / 9 :: real)" by simp
  from aspectRatioScore_closed_form [OF pos] mem show ?thesis unfolding Let_def by blast
qed

theorem aspectRatioScore_reciprocal_counterexample:
  "100 / 185 \<in> set canonicalWithReciprocals \<and> aspectRatioScore (100 / 185) \<noteq> 1
   \<and> aspectRatioScore 1000 = 0"
proof -
  have "aspectRatioScore (100 / 185) = math_exp (- (39 / 320))"
    by (simp add: aspectRatioScore_def COMMON_ASPECT_RATIOS_def aspectDistance_def Let_def)
  also have "\<dots> = exp (- (39 / 320))" by (rule math_exp_exact) simp
  finally have a: "aspectRatioScore (100 / 185) \<noteq> 1" by simp
  have "aspectRatioScore 1000 = math_exp (- (299283 / 239))"
    by (simp add: aspectRatioScore_def COMMON_ASPECT_RATIOS_def aspectDistance_def Let_def)
  also have "\<dots> = 0" by (rule math_exp_underflow) simp
  finally have b: "aspectRatioScore 1000 = 0" .
  from a b show ?thesis by (simp add: canonicalWithReciprocals_def)
qed

text \<open>
  C6. For all width and height above 0, \<open>getGridCandidates\<close> returns exactly 35
  candidates, one for every (rows, cols) with 1 to 6 rows and columns except (1, 1),
  sorted non-increasing by score, the score being
  \<open>0.55 cellARScore + 0.25 layoutScore + 0.10 cellCountScore + 0.10 gridSymmetry\<close>.
\<close>

theorem getGridCandidates_ranked:
  assumes "0 < w" and "0 < h"
  shows "length (getGridCandidates w h) = 35
       \<and> distinct (map (\<lambda>c. (cand_rows c, cand_cols c)) (getGridCandidates w h))
       \<and> set (map (\<lambda>c. (cand_rows c, cand_cols c)) (getGridCandidates w h))
           = {1..6} \<times> {1..6} - {(1, 1)}
       \<and> sorted_wrt (\<lambda>a b. cand_score a \<ge> cand_score b) (getGridCandidates w h)
       \<and> (\<forall>c\<in>set (getGridCandidates w h).
            cand_score c
              = 55 / 100 * aspectRatioScore ((real w / real (cand_cols c)) / (real h / real (cand_rows c)))
              + 25 / 100 * exp (- 2 * (max ((real w / real h) / (real (cand_cols c) / real (cand_rows c)))
                                            ((real (cand_cols c) / real (cand_rows c)) / (real w / real h)) - 1))
              + 10 / 100 * (if cand_rows c * cand_cols c \<le> 6 then 1
                            else exp (- (15 / 100) * (real (cand_rows c * cand_cols c) - 6)))
              + 10 / 100 * (1 - \<bar>real (cand_rows c) - real (cand_cols c)\<bar>
                                  / real (max (cand_rows c) (cand_cols c))))"
proof -
  let ?raw = "map (\<lambda>(rows, cols). gridCandidate w h rows cols) gridPairs"
  let ?pair = "\<lambda>c. (cand_rows c, cand_cols c)"
  note eq = getGridCandidates_unsorted [of w h]
  have len: "length (getGridCandidates w h) = 35"
    by (simp add: eq length_gridPairs)
  have "mset (map ?pair (getGridCandidates w h)) = mset (map ?pair ?raw)"
    by (simp only: eq mset_map mset_sort)
  then have ms: "mset (map ?pair (getGridCandidates w h)) = mset gridPairs"
    by (simp only: candidate_pairs)
  have dist: "distinct (map ?pair (getGridCandidates w h))"
    using ms distinct_gridPairs by (metis mset_eq_imp_distinct_iff)
  have st: "set (map ?pair (getGridCandidates w h)) = {1..6} \<times> {1..6} - {(1, 1)}"
    using ms set_gridPairs by (metis mset_eq_setD)
  have "sorted (map (\<lambda>c. - cand_score c) (getGridCandidates w h))"
    unfolding eq by (rule sorted_sort_key)
  then have srt: "sorted_wrt (\<lambda>a b. cand_score a \<ge> cand_score b) (getGridCandidates w h)"
    by (simp add: sorted_wrt_map)
  have sc: "cand_score c
              = 55 / 100 * aspectRatioScore ((real w / real (cand_cols c)) / (real h / real (cand_rows c)))
              + 25 / 100 * exp (- 2 * (max ((real w / real h) / (real (cand_cols c) / real (cand_rows c)))
                                            ((real (cand_cols c) / real (cand_rows c)) / (real w / real h)) - 1))
              + 10 / 100 * (if cand_rows c * cand_cols c \<le> 6 then 1
                            else exp (- (15 / 100) * (real (cand_rows c * cand_cols c) - 6)))
              + 10 / 100 * (1 - \<bar>real (cand_rows c) - real (cand_cols c)\<bar>
                                  / real (max (cand_rows c) (cand_cols c)))"
    if "c \<in> set (getGridCandidates w h)" for c
  proof -
    from that have "c \<in> set ?raw" by (simp add: eq)
    then obtain r k where rk: "(r, k) \<in> set gridPairs" "c = gridCandidate w h r k" by auto
    then have pos: "0 < r" "0 < k" by (auto simp: set_gridPairs)
    have rc: "cand_rows c = r" "cand_cols c = k"
      using gridCandidate_pair [of w h r k] rk(2) by simp_all
    show ?thesis
      unfolding rc unfolding rk(2) by (rule gridCandidate_score [OF assms pos])
  qed
  from len dist st srt sc show ?thesis by blast
qed

theorem getGridCandidates_ranked_witness:
  "length (getGridCandidates 4 3) = 35
   \<and> sorted_wrt (\<lambda>a b. cand_score a \<ge> cand_score b) (getGridCandidates 4 3)
   \<and> set (map (\<lambda>c. (cand_rows c, cand_cols c)) (getGridCandidates 4 3))
           = {1..6} \<times> {1..6} - {(1, 1)}"
proof -
  have d: "0 < (4::nat)" "0 < (3::nat)" by simp_all
  from getGridCandidates_ranked [OF d] show ?thesis by blast
qed

text \<open>
  C5. \<open>scoreGridByEdges\<close> is documented to return a score within [0, 1], the value
  \<open>clamp((r - 1) / 2, 0, 1)\<close> for the average capped ratio \<open>r\<close>. The source takes the
  minimum with 1 only, so an average ratio below 1 gives a negative score: for the
  profiles of the 10 by 5 example image and the 1 by 2 grid, the best-ranked candidate
  of an image of that size, the result is -0.5.
\<close>

theorem scoreGridByEdges_negative:
  "scoreGridByEdges 1 2 10 5
     (calculateVerticalEdgeProfile (img_data edgeExample) 10 5)
     (calculateHorizontalEdgeProfile (img_data edgeExample) 10 5) = - (1 / 2)"
  unfolding edgeExample_vertical edgeExample_horizontal by code_simp

section \<open>Claims about the orchestrator\<close>

text \<open>
  C2. For every decoded image, if the gutter detector returns none or a grid with fewer
  than 2 cells after its filter, \<open>detectAndSplitGrid\<close> uses exactly the grid that
  \<open>detectGrid\<close> yields for that image, and the gutter detector's grid unchanged
  otherwise; the output holds one image per cell of that grid, in the order of its cells.
\<close>

theorem detectAndSplitGrid_fallback:
  assumes "0 < img_width imageData" and "0 < img_height imageData"
  shows "\<exists>heuristic.
           detectGrid (Decoded imageData) = Inr heuristic
         \<and> (let grid = (case detectGridWithGutters (Decoded imageData) of
                           None \<Rightarrow> heuristic
                         | Some g \<Rightarrow> if length (grid_cells g) < 2 then heuristic else g)
            in detectAndSplitGrid crop (Decoded imageData)
                 = Inr (grid, map (crop imageData) (grid_cells grid)))"
proof -
  from detectGrid_Decoded [of imageData] obtain heuristic
    where h: "detectGrid (Decoded imageData) = Inr heuristic" by blast
  have "detectAndSplitGrid crop (Decoded imageData)
      = Inr (case detectGridWithGutters (Decoded imageData) of
               None \<Rightarrow> heuristic
             | Some g \<Rightarrow> if length (grid_cells g) < 2 then heuristic else g,
             map (crop imageData) (grid_cells
               (case detectGridWithGutters (Decoded imageData) of
                  None \<Rightarrow> heuristic
                | Some g \<Rightarrow> if length (grid_cells g) < 2 then heuristic else g)))"
    by (simp add: detectAndSplitGrid_def h splitImage_Decoded Let_def split: option.split)
  with h show ?thesis by (auto simp: Let_def)
qed

theorem detectAndSplitGrid_fallback_witness:
  "detectAndSplitGrid (\<lambda>im c. c) (Decoded gutterExample)
     = Inr (the (detectGridWithGutters (Decoded gutterExample)),
            [\<lparr>cell_x = 0, cell_y = 0, cell_width = 1, cell_height = 2\<rparr>,
             \<lparr>cell_x = 2, cell_y = 0, cell_width = 1, cell_height = 2\<rparr>])"
proof -
  have d: "0 < img_width gutterExample" "0 < img_height gutterExample"
    by (simp_all add: gutterExample_def)
  from detectAndSplitGrid_fallback [OF d, of "\<lambda>im c. c"] show ?thesis
    by (auto simp: gutterExample_detected Let_def)
qed

section \<open>Cell bounds\<close>

text \<open>
  C1, amended. Every cell of the gutter detector lies within the image and is not empty:
  \<open>x + width \<le> imageWidth\<close>, \<open>y + height \<le> imageHeight\<close>, \<open>width > 0\<close>, \<open>height > 0\<close>.
  A cell of the regular partition (w, h, rows, cols at least 1), and so a cell of the
  geometric detector, can overshoot the edge by the one pixel of rounding:
  \<open>x + width \<le> imageWidth + 1\<close>, \<open>y + height \<le> imageHeight + 1\<close>; its width is positive
  when \<open>cols \<le> 2 imageWidth\<close> and its height when \<open>rows \<le> 2 imageHeight\<close>.
\<close>

theorem cell_bounds:
  "(1 \<le> w \<and> 1 \<le> h \<and> 1 \<le> rows \<and> 1 \<le> cols \<longrightarrow>
      (\<forall>c\<in>set (grid_cells (createGridForDimensions w h rows cols)).
          0 \<le> cell_x c \<and> 0 \<le> cell_y c \<and> 0 \<le> cell_width c \<and> 0 \<le> cell_height c
        \<and> cell_x c + cell_width c \<le> int w + 1 \<and> cell_y c + cell_height c \<le> int h + 1
        \<and> (cols \<le> 2 * w \<longrightarrow> 0 < cell_width c) \<and> (rows \<le> 2 * h \<longrightarrow> 0 < cell_height c)))
   \<and> (1 \<le> img_width imageData \<and> 1 \<le> img_height imageData
        \<and> detectGrid (Decoded imageData) = Inr g \<longrightarrow>
      (\<forall>c\<in>set (grid_cells g).
          0 \<le> cell_x c \<and> 0 \<le> cell_y c \<and> 0 \<le> cell_width c \<and> 0 \<le> cell_height c
        \<and> cell_x c + cell_width c \<le> int (img_width imageData) + 1
        \<and> cell_y c + cell_height c \<le> int (img_height imageData) + 1
        \<and> (3 \<le> img_width imageData \<longrightarrow> 0 < cell_width c)
        \<and> (3 \<le> img_height imageData \<longrightarrow> 0 < cell_height c)))
   \<and> (detectGridWithGutters (Decoded imageData) = Some g' \<longrightarrow>
      (\<forall>c\<in>set (grid_cells g').
          0 \<le> cell_x c \<and> 0 \<le> cell_y c \<and> 0 < cell_width c \<and> 0 < cell_height c
        \<and> cell_x c + cell_width c \<le> int (img_width imageData)
        \<and> cell_y c + cell_height c \<le> int (img_height imageData)))"
proof -
  have regular: "0 \<le> cell_x c \<and> 0 \<le> cell_y c \<and> 0 \<le> cell_width c \<and> 0 \<le> cell_height c
        \<and> cell_x c + cell_width c \<le> int w + 1 \<and> cell_y c + cell_height c \<le> int h + 1
        \<and> (cols \<le> 2 * w \<longrightarrow> 0 < cell_width c) \<and> (rows \<le> 2 * h \<longrightarrow> 0 < cell_height c)"
    if "1 \<le> rows" "1 \<le> cols" "c \<in> set (grid_cells (createGridForDimensions w h rows cols))"
    for w h rows cols c
  proof -
    from that have pos: "0 < rows" "0 < cols" by simp_all
    from that(3) obtain row col where
      c: "c = regularCell (real w / real cols) (real h / real rows) row col"
      by (rule regular_cell_mem)
    have "0 < cell_width c" if "cols \<le> 2 * w"
      using regular_cell_extent_pos [OF pos(2) that] by (simp add: c regularCell_def)
    moreover have "0 < cell_height c" if "rows \<le> 2 * h"
      using regular_cell_extent_pos [OF pos(1) that] by (simp add: c regularCell_def)
    ultimately show ?thesis
      using regular_cell_bounds [OF pos that(3)] by blast
  qed
  have geometric: "0 \<le> cell_x c \<and> 0 \<le> cell_y c \<and> 0 \<le> cell_width c \<and> 0 \<le> cell_height c
        \<and> cell_x c + cell_width c \<le> int (img_width imageData) + 1
        \<and> cell_y c + cell_height c \<le> int (img_height imageData) + 1
        \<and> (3 \<le> img_width imageData \<longrightarrow> 0 < cell_width c)
        \<and> (3 \<le> img_height imageData \<longrightarrow> 0 < cell_height c)"
    if "detectGrid (Decoded imageData) = Inr g" "c \<in> set (grid_cells g)" for c
  proof -
    from detectGrid_Decoded [of imageData] that(1) obtain rows cols s
      where rc: "1 \<le> rows" "rows \<le> 6" "1 \<le> cols" "cols \<le> 6"
        "g = (createGridForDimensions (img_width imageData) (img_height imageData) rows cols)
               \<lparr>grid_confidence := s\<rparr>"
      by auto
    from that(2) have "c \<in> set (grid_cells
        (createGridForDimensions (img_width imageData) (img_height imageData) rows cols))"
      by (simp add: rc(5))
    from regular [OF rc(1) rc(3) this] rc(2,4) show ?thesis by auto
  qed
  have gutter: "0 \<le> cell_x c \<and> 0 \<le> cell_y c \<and> 0 < cell_width c \<and> 0 < cell_height c
        \<and> cell_x c + cell_width c \<le> int (img_width imageData)
        \<and> cell_y c + cell_height c \<le> int (img_height imageData)"
    if "detectGridWithGutters (Decoded imageData) = Some g'" "c \<in> set (grid_cells g')" for c
  proof -
    from that(2) have "c \<in> set (crossProduct (rowIntervalsOf imageData) (colIntervalsOf imageData))"
      unfolding gutter_Some_D(3) [OF that(1)] by simp
    then show ?thesis
      unfolding rowIntervalsOf_def colIntervalsOf_def by (rule crossProduct_positive)
  qed
  from regular geometric gutter show ?thesis by blast
qed

theorem cell_bounds_witness:
  "cell_x (last (grid_cells (createGridForDimensions 3 3 1 2)))
     + cell_width (last (grid_cells (createGridForDimensions 3 3 1 2))) \<le> 3 + 1
   \<and> 0 < cell_width (last (grid_cells (createGridForDimensions 3 3 1 2)))
   \<and> cell_x (last (grid_cells (the (detectGridWithGutters (Decoded gutterExample)))))
     + cell_width (last (grid_cells (the (detectGridWithGutters (Decoded gutterExample))))) \<le> 3"
proof -
  have m1: "last (grid_cells (createGridForDimensions 3 3 1 2))
      \<in> set (grid_cells (createGridForDimensions 3 3 1 2))"
    by (simp del: One_nat_def add: createGrid_3_3_1_2)
  have m2: "last (grid_cells (the (detectGridWithGutters (Decoded gutterExample))))
      \<in> set (grid_cells (the (detectGridWithGutters (Decoded gutterExample))))"
    by (simp add: gutterExample_detected)
  have w3: "img_width gutterExample = 3" by (simp add: gutterExample_def)
  note t = cell_bounds [of 3 3 1 2 gutterExample _ "the (detectGridWithGutters (Decoded gutterExample))"]
  from t have a: "\<forall>c\<in>set (grid_cells (createGridForDimensions 3 3 1 2)).
       cell_x c + cell_width c \<le> int 3 + 1 \<and> 0 < cell_width c"
    by (simp del: One_nat_def)
  from t have b: "\<forall>c\<in>set (grid_cells (the (detectGridWithGutters (Decoded gutterExample)))).
       cell_x c + cell_width c \<le> int (img_width gutterExample)"
    by (simp add: gutterExample_detected)
  from a m1 b m2 show ?thesis by (auto simp: w3)
qed

theorem cell_bounds_counterexample:
  "\<not> (cell_x (last (grid_cells (createGridForDimensions 3 3 1 2)))
        + cell_width (last (grid_cells (createGridForDimensions 3 3 1 2))) \<le> 3)
   \<and> \<not> (0 < cell_width (hd (grid_cells (createGridForDimensions 1 1 1 3))))"
  by (simp del: One_nat_def add: createGrid_3_3_1_2 createGrid_1_1_1_3)

end
